theory Spec2Isabelle
  imports Main "HOL-Library.AList" "HOL-Library.Sublist"
begin

section \<open>Conventions\<close>

text \<open>
  This theory embeds the terminal application of the repository (the classes
  \<open>MessageQueue\<close>, \<open>StreamingText\<close>, \<open>ToolExecution\<close> and \<open>TUIApp\<close>, and the function
  \<open>formatToolInput\<close>) and proves properties of its outbound queue, of its decoder of
  stream events and of its session.

  Mutation is state passing: a method takes the state of its object and returns the new
  one. Strings are \<open>string\<close>: the model is exact on ASCII text; a character outside ASCII
  is the sequence of its UTF-8 bytes, as in the source file. What the application calls
  in its libraries and in the language (the theme's colour functions, \<open>JSON.parse\<close>,
  arithmetic on floating-point numbers, the length and the slice of a string, the
  members of \<open>Object.prototype\<close>) is a parameter of the model.
\<close>

section \<open>The outbound message queue (class MessageQueue of the TUI application)\<close>

text \<open>
  An \<open>SDKUserMessage\<close> built by \<open>push\<close> always has type "user", role "user" and a null
  parent tool use id; the two fields that vary are kept.
\<close>

record sdk_user_message =
  session_id :: string
  content :: string

text \<open>\<open>IteratorResult\<close>: \<open>{value, done: false}\<close> or \<open>{value: undefined, done: true}\<close>.\<close>

datatype iterator_result = IterValue sdk_user_message | IterDone

text \<open>
  The fields \<open>queue\<close>, \<open>resolvers\<close>, \<open>done\<close> and \<open>sessionId\<close> of the class. Every call
  of the iterator's \<open>next\<close> returns a new promise: promises are numbered in the order
  \<open>next\<close> creates them (\<open>promises\<close> counts them), a resolver is the number of the promise
  it settles, and \<open>settled\<close> lists the promises settled so far with what each one
  received, in the order they were settled.
\<close>

record message_queue =
  queue :: "sdk_user_message list"
  resolvers :: "nat list"
  mq_done :: bool
  mq_sessionId :: string
  promises :: nat
  settled :: "(nat \<times> iterator_result) list"

definition new_MessageQueue :: message_queue where
  "new_MessageQueue =
     \<lparr>queue = [], resolvers = [], mq_done = False, mq_sessionId = [],
      promises = 0, settled = []\<rparr>"

definition setSessionId :: "string \<Rightarrow> message_queue \<Rightarrow> message_queue" where
  "setSessionId sid q = q\<lparr>mq_sessionId := sid\<rparr>"

definition push :: "string \<Rightarrow> message_queue \<Rightarrow> message_queue" where
  "push c q =
     (if mq_done q then q
      else
        let message = \<lparr>session_id = mq_sessionId q, content = c\<rparr> in
        (case resolvers q of
           r # rs \<Rightarrow> q\<lparr>resolvers := rs, settled := settled q @ [(r, IterValue message)]\<rparr>
         | [] \<Rightarrow> q\<lparr>queue := queue q @ [message]\<rparr>))"

definition close :: "message_queue \<Rightarrow> message_queue" where
  "close q =
     q\<lparr>mq_done := True,
       settled := settled q @ map (\<lambda>r. (r, IterDone)) (resolvers q),
       resolvers := []\<rparr>"

definition isClosed :: "message_queue \<Rightarrow> bool" where
  "isClosed q = mq_done q"

text \<open>
  \<open>next\<close> of the async iterator. The promise it returns is number \<open>promises q\<close>; it is
  settled at once when a message is buffered or the queue is closed, and parked as a
  resolver otherwise.
\<close>

definition next_mq :: "message_queue \<Rightarrow> message_queue" where
  "next_mq q =
     (let p = promises q; q1 = q\<lparr>promises := Suc p\<rparr> in
      (case queue q of
         m # ms \<Rightarrow> q1\<lparr>queue := ms, settled := settled q @ [(p, IterValue m)]\<rparr>
       | [] \<Rightarrow>
           if mq_done q then q1\<lparr>settled := settled q @ [(p, IterDone)]\<rparr>
           else q1\<lparr>resolvers := resolvers q @ [p]\<rparr>))"

text \<open>What the owner and the consumer can do to a queue, and a run of such calls.\<close>

datatype queue_op = Push string | Next | SetSessionId string | Close

fun queue_step :: "message_queue \<Rightarrow> queue_op \<Rightarrow> message_queue" where
  "queue_step q (Push c) = push c q"
| "queue_step q Next = next_mq q"
| "queue_step q (SetSessionId sid) = setSessionId sid q"
| "queue_step q Close = close q"

definition queue_run :: "message_queue \<Rightarrow> queue_op list \<Rightarrow> message_queue" where
  "queue_run q ops = foldl queue_step q ops"

text \<open>
  The messages a run submits while the queue is open, in submission order: each \<open>Push\<close>
  builds its message with the session id set at that moment, and nothing is submitted
  from the first \<open>Close\<close> on.
\<close>

fun submitted :: "string \<Rightarrow> queue_op list \<Rightarrow> sdk_user_message list" where
  "submitted sid [] = []"
| "submitted sid (Push c # ops) = \<lparr>session_id = sid, content = c\<rparr> # submitted sid ops"
| "submitted sid (Next # ops) = submitted sid ops"
| "submitted sid (SetSessionId sid' # ops) = submitted sid' ops"
| "submitted sid (Close # ops) = []"

text \<open>The session id in force after a run of calls.\<close>

fun sid_after :: "string \<Rightarrow> queue_op list \<Rightarrow> string" where
  "sid_after sid [] = sid"
| "sid_after sid (SetSessionId sid' # ops) = sid_after sid' ops"
| "sid_after sid (_ # ops) = sid_after sid ops"

text \<open>
  The invariant of an open queue against the list \<open>subs\<close> of messages submitted so far:
  promise number \<open>i\<close> has received message number \<open>i\<close>, the messages not yet received are
  buffered in order, and the promises not yet settled wait in the order they were made.
\<close>

definition fifo_inv :: "message_queue \<Rightarrow> sdk_user_message list \<Rightarrow> bool" where
  "fifo_inv q subs =
     (let n = length (settled q) in
      \<not> mq_done q
      \<and> map fst (settled q) = [0..<n]
      \<and> map snd (settled q) = map IterValue (take n subs)
      \<and> queue q = drop n subs
      \<and> resolvers q = [n..<promises q]
      \<and> n = min (promises q) (length subs))"

text \<open>
  The invariant of every queue, open or closed: a consumer waits only while the queue is
  open and nothing is buffered, and the promises are settled in the order they were made.
\<close>

definition queue_inv :: "message_queue \<Rightarrow> bool" where
  "queue_inv q =
     ((resolvers q = [] \<or> (queue q = [] \<and> \<not> mq_done q))
      \<and> map fst (settled q) @ resolvers q = [0..<promises q])"

section \<open>Values of the host language\<close>

text \<open>
  What \<open>JSON.parse\<close> returns. JavaScript numbers are floating-point: their type is the
  parameter \<open>'n\<close>, and what the application does with a number is a field of the host
  below. An object is the list of its own properties, each key once.
\<close>

datatype 'n json =
    JNull
  | JBool bool
  | JNumber 'n
  | JString string
  | JArray "'n json list"
  | JObject "(string \<times> 'n json) list"

text \<open>
  The built-ins the application calls, taken as parameters: \<open>JSON.parse\<close> (\<open>None\<close> when it
  throws), on numbers truthiness, \<open>String(n)\<close>, the literal \<open>0\<close>, \<open>n.toFixed(k)\<close> and
  \<open>n / 1000\<close>; on strings \<open>s.length\<close> and \<open>s.slice(0, n)\<close>, which count UTF-16 code
  units; and the members that every object literal inherits from \<open>Object.prototype\<close>:
  \<open>inherited_member k\<close> is the text that a template string prints for
  \<open>Object.prototype[k]\<close> when \<open>k\<close> names such a member (\<open>constructor\<close>, \<open>toString\<close>, ...),
  and \<open>None\<close> for every other \<open>k\<close>.
\<close>

record 'n host =
  JSON_parse :: "string \<Rightarrow> 'n json option"
  number_truthy :: "'n \<Rightarrow> bool"
  number_String :: "'n \<Rightarrow> string"
  number_zero :: 'n
  number_toFixed :: "nat \<Rightarrow> 'n \<Rightarrow> string"
  number_div1000 :: "'n \<Rightarrow> 'n"
  string_length :: "string \<Rightarrow> nat"
  string_slice0 :: "nat \<Rightarrow> string \<Rightarrow> string"
  inherited_member :: "string \<Rightarrow> string option"

text \<open>The colour functions of the theme that the transcript uses (chalk styles).\<close>

record theme =
  theme_muted :: "string \<Rightarrow> string"
  theme_success :: "string \<Rightarrow> string"
  theme_error :: "string \<Rightarrow> string"
  theme_dim :: "string \<Rightarrow> string"

text \<open>Truthiness of a value, and of an optional string (\<open>undefined\<close> and \<open>""\<close> are falsy).\<close>

fun truthy :: "'n host \<Rightarrow> 'n json \<Rightarrow> bool" where
  "truthy h JNull = False"
| "truthy h (JBool b) = b"
| "truthy h (JNumber n) = number_truthy h n"
| "truthy h (JString s) = (s \<noteq> [])"
| "truthy h (JArray xs) = True"
| "truthy h (JObject kvs) = True"

fun truthy_string :: "string option \<Rightarrow> bool" where
  "truthy_string None = False"
| "truthy_string (Some s) = (s \<noteq> [])"

text \<open>\<open>xs.join(",")\<close> on strings.\<close>

fun join_comma :: "string list \<Rightarrow> string" where
  "join_comma [] = []"
| "join_comma [x] = x"
| "join_comma (x # y # ys) = x @ '','' @ join_comma (y # ys)"

text \<open>
  \<open>String(v)\<close>: an array is its elements joined by commas, \<open>null\<close> elements as the empty
  string; an object is \<open>[object Object]\<close>. One input is outside the model: an object that
  has a property of its own named \<open>toString\<close> (or an array that holds one) makes \<open>String\<close>
  throw a \<open>TypeError\<close>, which ends the session through the \<open>catch\<close> block of \<open>start\<close>;
  the model gives \<open>[object Object]\<close> and goes on. The model follows the code up to such an
  event, when one of the fields read by \<open>formatToolInput\<close> holds such an object.
\<close>

fun String_of :: "'n host \<Rightarrow> 'n json \<Rightarrow> string" where
  "String_of h JNull = ''null''"
| "String_of h (JBool b) = (if b then ''true'' else ''false'')"
| "String_of h (JNumber n) = number_String h n"
| "String_of h (JString s) = s"
| "String_of h (JArray xs) =
     join_comma (map (\<lambda>x. if x = JNull then [] else String_of h x) xs)"
| "String_of h (JObject kvs) = ''[object Object]''"

text \<open>
  \<open>obj.key\<close> for the keys the application reads (\<open>file_path\<close>, \<open>command\<close>, \<open>pattern\<close>,
  \<open>url\<close>, \<open>query\<close>, \<open>description\<close>): an own property of an object, \<open>undefined\<close> on an
  array.
\<close>

fun property :: "'n json \<Rightarrow> string \<Rightarrow> 'n json option" where
  "property (JObject kvs) k = map_of kvs k"
| "property v k = None"

text \<open>\<open>typeof v === "object"\<close>.\<close>

fun typeof_object :: "'n json \<Rightarrow> bool" where
  "typeof_object JNull = True"
| "typeof_object (JArray xs) = True"
| "typeof_object (JObject kvs) = True"
| "typeof_object v = False"

section \<open>Tool display: \<open>TOOL_ICONS\<close>, \<open>formatToolInput\<close> and class \<open>ToolExecution\<close>\<close>

definition TOOL_ICONS :: "(string \<times> string) list" where
  "TOOL_ICONS =
     [(''Read'', [CHR 0xF0, CHR 0x9F, CHR 0x93, CHR 0x96]),
      (''Write'', [CHR 0xE2, CHR 0x9C, CHR 0x8F, CHR 0xEF, CHR 0xB8, CHR 0x8F]),
      (''Edit'', [CHR 0xF0, CHR 0x9F, CHR 0x93, CHR 0x9D]),
      (''MultiEdit'', [CHR 0xF0, CHR 0x9F, CHR 0x93, CHR 0x9D]),
      (''Bash'', [CHR 0xF0, CHR 0x9F, CHR 0x92, CHR 0xBB]),
      (''Glob'', [CHR 0xF0, CHR 0x9F, CHR 0x94, CHR 0x8D]),
      (''Grep'', [CHR 0xF0, CHR 0x9F, CHR 0x94, CHR 0x8E]),
      (''Task'', [CHR 0xF0, CHR 0x9F, CHR 0xA4, CHR 0x96]),
      (''WebFetch'', [CHR 0xF0, CHR 0x9F, CHR 0x8C, CHR 0x90]),
      (''WebSearch'', [CHR 0xF0, CHR 0x9F, CHR 0x94, CHR 0x8D]),
      (''TodoWrite'', [CHR 0xF0, CHR 0x9F, CHR 0x93, CHR 0x8B]),
      (''AskUserQuestion'', [CHR 0xE2, CHR 0x9D, CHR 0x93]),
      (''NotebookEdit'', [CHR 0xF0, CHR 0x9F, CHR 0x93, CHR 0x93])]"

text \<open>The icon of a tool without an entry in the table (a gear).\<close>

definition default_icon :: string where
  "default_icon = [CHR 0xE2, CHR 0x9A, CHR 0x99, CHR 0xEF, CHR 0xB8, CHR 0x8F]"

text \<open>\<open>obj.key ? String(obj.key) : ""\<close>.\<close>

definition field_text :: "'n host \<Rightarrow> 'n json \<Rightarrow> string \<Rightarrow> string" where
  "field_text h obj k =
     (case property obj k of
        Some v \<Rightarrow> if truthy h v then String_of h v else []
      | None \<Rightarrow> [])"

text \<open>\<open>formatToolInput\<close>. The input is \<open>None\<close> when it is \<open>undefined\<close>.\<close>

definition formatToolInput :: "'n host \<Rightarrow> string \<Rightarrow> 'n json option \<Rightarrow> string" where
  "formatToolInput h toolName input =
     (case input of
        None \<Rightarrow> []
      | Some obj \<Rightarrow>
          if \<not> truthy h obj \<or> \<not> typeof_object obj then []
          else if toolName = ''Read'' then field_text h obj ''file_path''
          else if toolName = ''Write'' \<or> toolName = ''Edit'' \<or> toolName = ''MultiEdit''
            then field_text h obj ''file_path''
          else if toolName = ''Bash'' then
            (case property obj ''command'' of
               Some v \<Rightarrow>
                 if truthy h v then
                   (let cmd = String_of h v in
                    if string_length h cmd > 60 then string_slice0 h 57 cmd @ ''...'' else cmd)
                 else []
             | None \<Rightarrow> [])
          else if toolName = ''Glob'' then field_text h obj ''pattern''
          else if toolName = ''Grep'' then field_text h obj ''pattern''
          else if toolName = ''WebFetch'' then field_text h obj ''url''
          else if toolName = ''WebSearch'' then field_text h obj ''query''
          else if toolName = ''Task'' then field_text h obj ''description''
          else [])"

datatype tool_status = Running | Done | Error

record 'n tool_execution =
  toolName :: string
  tool_input :: "'n json option"
  status :: tool_status
  lines :: "string list"

definition getStatusIcon :: "tool_status \<Rightarrow> string" where
  "getStatusIcon st =
     (case st of
        Running \<Rightarrow> [CHR 0xE2, CHR 0x9F, CHR 0xB3]
      | Done \<Rightarrow> [CHR 0xE2, CHR 0x9C, CHR 0x93]
      | Error \<Rightarrow> [CHR 0xE2, CHR 0x9C, CHR 0x97])"

definition getColor :: "theme \<Rightarrow> tool_status \<Rightarrow> string \<Rightarrow> string" where
  "getColor th st =
     (case st of
        Running \<Rightarrow> (\<lambda>s. s)
      | Done \<Rightarrow> theme_success th
      | Error \<Rightarrow> theme_error th)"

text \<open>
  \<open>updateLines\<close>. \<open>TOOL_ICONS[name]\<close> finds the entry of the table, or else the member
  of that name that the table inherits from \<open>Object.prototype\<close>, whose text is then
  printed as the icon; the default icon is for every other name.
\<close>

definition updateLines :: "theme \<Rightarrow> 'n host \<Rightarrow> 'n tool_execution \<Rightarrow> 'n tool_execution" where
  "updateLines th h t =
     (let icon =
            (case map_of TOOL_ICONS (toolName t) of
               Some i \<Rightarrow> i
             | None \<Rightarrow>
                 (case inherited_member h (toolName t) of Some m \<Rightarrow> m | None \<Rightarrow> default_icon));
          statusIcon = getStatusIcon (status t);
          color = getColor th (status t);
          inputStr = formatToolInput h (toolName t) (tool_input t);
          line = statusIcon @ '' '' @ icon @ '' '' @ toolName t;
          line' = (if inputStr \<noteq> [] then line @ '': '' @ theme_muted th inputStr else line)
      in t\<lparr>lines := [color line']\<rparr>)"

definition new_ToolExecution ::
  "theme \<Rightarrow> 'n host \<Rightarrow> string \<Rightarrow> 'n json option \<Rightarrow> tool_status \<Rightarrow> 'n tool_execution" where
  "new_ToolExecution th h name input st =
     updateLines th h \<lparr>toolName = name, tool_input = input, status = st, lines = []\<rparr>"

definition setStatus ::
  "theme \<Rightarrow> 'n host \<Rightarrow> tool_status \<Rightarrow> 'n tool_execution \<Rightarrow> 'n tool_execution" where
  "setStatus th h st t = updateLines th h (t\<lparr>status := st\<rparr>)"

definition setInput ::
  "theme \<Rightarrow> 'n host \<Rightarrow> 'n json option \<Rightarrow> 'n tool_execution \<Rightarrow> 'n tool_execution" where
  "setInput th h input t = updateLines th h (t\<lparr>tool_input := input\<rparr>)"

section \<open>Class \<open>StreamingText\<close> and the components of the transcript\<close>

text \<open>The accumulated text, and the text last given to the Markdown component.\<close>

record streaming_text =
  st_text :: string
  st_markdown :: string

definition new_StreamingText :: streaming_text where
  "new_StreamingText = \<lparr>st_text = [], st_markdown = []\<rparr>"

definition appendText :: "string \<Rightarrow> streaming_text \<Rightarrow> streaming_text" where
  "appendText chunk st = \<lparr>st_text = st_text st @ chunk, st_markdown = st_text st @ chunk\<rparr>"

definition getText :: "streaming_text \<Rightarrow> string" where
  "getText st = st_text st"

text \<open>
  A component of the messages container: a \<open>Text\<close> or \<open>Markdown\<close> with its two paddings,
  a streaming text, a tool execution, or the loader with its message and whether it is
  running.
\<close>

datatype 'n component =
    Text string nat nat
  | Markdown string nat nat
  | StreamingText streaming_text
  | ToolExecution "'n tool_execution"
  | Loader string bool

section \<open>Class \<open>TUIApp\<close>\<close>

text \<open>The tool-input accumulator \<open>pendingToolUse\<close>.\<close>

record pending_tool_use =
  pending_id :: string
  pending_name :: string
  inputJson :: string

text \<open>
  The state of the application. Components are objects that several fields refer to
  (the container, \<open>loader\<close>, \<open>currentStreaming\<close>, the values of \<open>activeTools\<close>), so the
  state holds a store: \<open>components\<close> lists every component created so far, a reference is
  an index into it, and a new component gets the next index. \<open>messagesContainer\<close> is the
  list of the container's children, the transcript. \<open>activeTools\<close> is the \<open>Map\<close> from
  tool use ids to tool executions, in insertion order. Of the terminal UI the state keeps
  whether it runs and how many times \<open>requestRender\<close> was called by the application (the
  loader's own timer is not modelled), and of the abort controller whether it was
  aborted. The header and the editor are not part of the transcript and are left out.
\<close>

record 'n tui_app =
  components :: "'n component list"
  messagesContainer :: "nat list"
  loader :: "nat option"
  currentStreaming :: "nat option"
  activeTools :: "(string \<times> nat) list"
  pendingToolUse :: "pending_tool_use option"
  sessionId :: string
  totalCost :: 'n
  messageQueue :: message_queue
  aborted :: bool
  tui_running :: bool
  renderRequests :: nat

definition new_TUIApp :: "'n host \<Rightarrow> 'n tui_app" where
  "new_TUIApp h =
     \<lparr>components = [], messagesContainer = [], loader = None, currentStreaming = None,
      activeTools = [], pendingToolUse = None, sessionId = [], totalCost = number_zero h,
      messageQueue = new_MessageQueue, aborted = False, tui_running = False,
      renderRequests = 0\<rparr>"

text \<open>Creating a component and \<open>messagesContainer.addChild\<close> of it.\<close>

definition addChild :: "'n component \<Rightarrow> 'n tui_app \<Rightarrow> 'n tui_app" where
  "addChild c s =
     s\<lparr>components := components s @ [c],
       messagesContainer := messagesContainer s @ [length (components s)]\<rparr>"

definition requestRender :: "'n tui_app \<Rightarrow> 'n tui_app" where
  "requestRender s = s\<lparr>renderRequests := Suc (renderRequests s)\<rparr>"

text \<open>Calling a method of the tool execution that a reference points to.\<close>

definition on_tool ::
  "('n tool_execution \<Rightarrow> 'n tool_execution) \<Rightarrow> nat \<Rightarrow> 'n component list \<Rightarrow> 'n component list" where
  "on_tool f r cs =
     (if r < length cs then
        (case cs ! r of ToolExecution t \<Rightarrow> cs[r := ToolExecution (f t)] | _ \<Rightarrow> cs)
      else cs)"

definition on_streaming ::
  "(streaming_text \<Rightarrow> streaming_text) \<Rightarrow> nat \<Rightarrow> 'n component list \<Rightarrow> 'n component list" where
  "on_streaming f r cs =
     (if r < length cs then
        (case cs ! r of StreamingText st \<Rightarrow> cs[r := StreamingText (f st)] | _ \<Rightarrow> cs)
      else cs)"

definition loader_stop :: "nat \<Rightarrow> 'n component list \<Rightarrow> 'n component list" where
  "loader_stop r cs =
     (if r < length cs then
        (case cs ! r of Loader m b \<Rightarrow> cs[r := Loader m False] | _ \<Rightarrow> cs)
      else cs)"

definition addMessage :: "string \<Rightarrow> 'n tui_app \<Rightarrow> 'n tui_app" where
  "addMessage t s = addChild (Text t 1 0) s"

definition addMarkdown :: "string \<Rightarrow> 'n tui_app \<Rightarrow> 'n tui_app" where
  "addMarkdown t s = addChild (Markdown t 1 0) s"

definition startLoading :: "'n tui_app \<Rightarrow> 'n tui_app" where
  "startLoading s =
     (case loader s of
        Some l \<Rightarrow> s
      | None \<Rightarrow> (addChild (Loader ''Thinking...'' True) s)\<lparr>loader := Some (length (components s))\<rparr>)"

definition stopLoading :: "'n tui_app \<Rightarrow> 'n tui_app" where
  "stopLoading s =
     (case loader s of
        Some l \<Rightarrow>
          s\<lparr>components := loader_stop l (components s),
            messagesContainer := remove1 l (messagesContainer s),
            loader := None\<rparr>
      | None \<Rightarrow> s)"

definition startStreaming :: "'n tui_app \<Rightarrow> 'n tui_app" where
  "startStreaming s =
     (let s1 = stopLoading s in
      (addChild (StreamingText new_StreamingText) s1)
        \<lparr>currentStreaming := Some (length (components s1))\<rparr>)"

text \<open>
  \<open>appendStreamingText\<close>. After \<open>startStreaming\<close> the field \<open>currentStreaming\<close> is set, so
  the non-null assertion of the source never fails (lemma \<open>currentStreaming_startStreaming\<close>).
\<close>

definition appendStreamingText :: "string \<Rightarrow> 'n tui_app \<Rightarrow> 'n tui_app" where
  "appendStreamingText t s =
     (let s1 = (if currentStreaming s = None then startStreaming s else s) in
      (case currentStreaming s1 of
         Some c \<Rightarrow> requestRender (s1\<lparr>components := on_streaming (appendText t) c (components s1)\<rparr>)
       | None \<Rightarrow> s1))"

definition finishStreaming :: "'n tui_app \<Rightarrow> 'n tui_app" where
  "finishStreaming s = s\<lparr>currentStreaming := None\<rparr>"

text \<open>\<open>Map.set\<close> is \<open>AList.update\<close>: an existing key keeps its place and gets the new value.\<close>

definition showToolStart ::
  "theme \<Rightarrow> 'n host \<Rightarrow> string \<Rightarrow> string \<Rightarrow> 'n json option \<Rightarrow> 'n tui_app \<Rightarrow> 'n tui_app" where
  "showToolStart th h toolUseId name input s =
     (let tool = new_ToolExecution th h name input Running;
          r = length (components s);
          s1 = s\<lparr>activeTools := AList.update toolUseId r (activeTools s)\<rparr>
      in requestRender (addChild (ToolExecution tool) s1))"

definition showToolComplete ::
  "theme \<Rightarrow> 'n host \<Rightarrow> string \<Rightarrow> bool \<Rightarrow> 'n tui_app \<Rightarrow> 'n tui_app" where
  "showToolComplete th h toolUseId isError s =
     (case map_of (activeTools s) toolUseId of
        Some tool \<Rightarrow>
          requestRender
            (s\<lparr>components :=
                 on_tool (setStatus th h (if isError then Error else Done)) tool (components s),
               activeTools := AList.delete toolUseId (activeTools s)\<rparr>)
      | None \<Rightarrow> s)"

definition markAllToolsDone :: "theme \<Rightarrow> 'n host \<Rightarrow> 'n tui_app \<Rightarrow> 'n tui_app" where
  "markAllToolsDone th h s =
     (if activeTools s = [] then s
      else
        requestRender
          (s\<lparr>components :=
               foldl (\<lambda>cs tool. on_tool (setStatus th h Done) tool cs) (components s)
                 (map snd (activeTools s)),
             activeTools := []\<rparr>))"

text \<open>\<open>stop\<close>: close the queue, abort, stop the terminal UI.\<close>

definition stop :: "'n tui_app \<Rightarrow> 'n tui_app" where
  "stop s = s\<lparr>messageQueue := close (messageQueue s), aborted := True, tui_running := False\<rparr>"

subsection \<open>\<open>String.prototype.trim\<close>\<close>

text \<open>
  The white space and line terminators of ECMAScript, in UTF-8: the six ASCII ones, and
  U+00A0, U+1680, U+2000 to U+200A, U+2028, U+2029, U+202F, U+205F, U+3000, U+FEFF.
\<close>

definition white1 :: "char \<Rightarrow> bool" where
  "white1 c = (c \<in> set [CHR 0x09, CHR 0x0A, CHR 0x0B, CHR 0x0C, CHR 0x0D, CHR 0x20])"

definition white2 :: "char \<Rightarrow> char \<Rightarrow> bool" where
  "white2 a b = (a = CHR 0xC2 \<and> b = CHR 0xA0)"

definition white3 :: "char \<Rightarrow> char \<Rightarrow> char \<Rightarrow> bool" where
  "white3 a b c =
     ((a = CHR 0xE1 \<and> b = CHR 0x9A \<and> c = CHR 0x80)
      \<or> (a = CHR 0xE2 \<and> b = CHR 0x80 \<and>
           (c \<in> set [CHR 0x80, CHR 0x81, CHR 0x82, CHR 0x83, CHR 0x84, CHR 0x85, CHR 0x86,
                      CHR 0x87, CHR 0x88, CHR 0x89, CHR 0x8A, CHR 0xA8, CHR 0xA9, CHR 0xAF]))
      \<or> (a = CHR 0xE2 \<and> b = CHR 0x81 \<and> c = CHR 0x9F)
      \<or> (a = CHR 0xE3 \<and> b = CHR 0x80 \<and> c = CHR 0x80)
      \<or> (a = CHR 0xEF \<and> b = CHR 0xBB \<and> c = CHR 0xBF))"

fun trimStart :: "string \<Rightarrow> string" where
  "trimStart (a # b # c # s) =
     (if white1 a then trimStart (b # c # s)
      else if white2 a b then trimStart (c # s)
      else if white3 a b c then trimStart s
      else a # b # c # s)"
| "trimStart [a, b] =
     (if white1 a then trimStart [b] else if white2 a b then [] else [a, b])"
| "trimStart [a] = (if white1 a then [] else [a])"
| "trimStart [] = []"

text \<open>The same from the end: the string is reversed, so the bytes come in reverse.\<close>

fun trimEnd_rev :: "string \<Rightarrow> string" where
  "trimEnd_rev (c # b # a # s) =
     (if white1 c then trimEnd_rev (b # a # s)
      else if white2 b c then trimEnd_rev (a # s)
      else if white3 a b c then trimEnd_rev s
      else c # b # a # s)"
| "trimEnd_rev [c, b] =
     (if white1 c then trimEnd_rev [b] else if white2 b c then [] else [c, b])"
| "trimEnd_rev [c] = (if white1 c then [] else [c])"
| "trimEnd_rev [] = []"

definition trim :: "string \<Rightarrow> string" where
  "trim s = rev (trimEnd_rev (rev (trimStart s)))"

subsection \<open>Input from the editor\<close>

definition handleSubmit :: "theme \<Rightarrow> string \<Rightarrow> 'n tui_app \<Rightarrow> 'n tui_app" where
  "handleSubmit th t s =
     (let trimmed = trim t in
      if trimmed = [] then s
      else if trimmed = ''/exit'' \<or> trimmed = ''/quit'' \<or> trimmed = ''/q'' then stop s
      else if trimmed = ''/help'' \<or> trimmed = ''/?'' then
        requestRender
          (addMessage
             (theme_muted th
                (''Commands:'' @ [CHR 0x0A] @ ''  /help - Show this help'' @ [CHR 0x0A]
                 @ ''  /exit - Exit the session''))
             s)
      else
        (let s1 = addMessage (theme_dim th (''You: '' @ trimmed)) s;
             s2 = startLoading s1
         in s2\<lparr>messageQueue := push trimmed (messageQueue s2)\<rparr>))"

subsection \<open>Messages of the SDK\<close>

text \<open>
  The part of a stream event that \<open>handleStreamEvent\<close> reads; an absent field is \<open>None\<close>.
\<close>

record content_block =
  block_type :: string
  block_id :: "string option"
  block_name :: "string option"

record delta =
  delta_type :: string
  delta_text :: "string option"
  partial_json :: "string option"

record stream_event =
  event_type :: string
  event_content_block :: "content_block option"
  event_delta :: "delta option"

text \<open>
  An \<open>SDKMessage\<close> by its type, with the fields \<open>handleMessage\<close> reads: a system message
  with its subtype and session id, a stream event, an assistant message, a tool progress
  message with \<open>tool_use_id\<close>, \<open>progress\<close> and \<open>is_error\<close>, a result with \<open>total_cost_usd\<close>
  and \<open>duration_ms\<close>, and a message of any other type.
\<close>

datatype 'n sdk_message =
    System_message string "string option"
  | Stream_event stream_event
  | Assistant_message
  | Tool_progress "string option" "string option" "bool option"
  | Result_message "'n option" "'n option"
  | Other_message

definition handleStreamEvent ::
  "theme \<Rightarrow> 'n host \<Rightarrow> stream_event \<Rightarrow> 'n tui_app \<Rightarrow> 'n tui_app" where
  "handleStreamEvent th h event s =
     (if event_type event = ''content_block_start'' then
        (case event_content_block event of
           None \<Rightarrow> s
         | Some block \<Rightarrow>
             if block_type block = ''text'' then startStreaming (markAllToolsDone th h s)
             else if block_type block = ''tool_use'' \<and> truthy_string (block_id block)
                     \<and> truthy_string (block_name block) then
               (let bid = the (block_id block);
                    bname = the (block_name block);
                    s1 = markAllToolsDone th h s;
                    s2 = showToolStart th h bid bname None s1
                in s2\<lparr>pendingToolUse :=
                        Some \<lparr>pending_id = bid, pending_name = bname, inputJson = []\<rparr>\<rparr>)
             else s)
      else if event_type event = ''content_block_delta'' then
        (case event_delta event of
           None \<Rightarrow> s
         | Some d \<Rightarrow>
             if delta_type d = ''text_delta'' \<and> truthy_string (delta_text d) then
               appendStreamingText (the (delta_text d)) s
             else if delta_type d = ''input_json_delta'' \<and> truthy_string (partial_json d) then
               (case pendingToolUse s of
                  Some p \<Rightarrow>
                    s\<lparr>pendingToolUse := Some (p\<lparr>inputJson := inputJson p @ the (partial_json d)\<rparr>)\<rparr>
                | None \<Rightarrow> s)
             else s)
      else if event_type event = ''content_block_stop'' then
        (case pendingToolUse s of
           Some p \<Rightarrow>
             (let s1 =
                (case map_of (activeTools s) (pending_id p) of
                   Some tool \<Rightarrow>
                     (let input = JSON_parse h (inputJson p) in
                      requestRender
                        (s\<lparr>components := on_tool (setInput th h input) tool (components s)\<rparr>))
                 | None \<Rightarrow> s)
              in s1\<lparr>pendingToolUse := None\<rparr>)
         | None \<Rightarrow> s)
      else if event_type event = ''message_start'' then stopLoading s
      else s)"

text \<open>The separator line of the cost summary: 41 box-drawing dashes.\<close>

definition separator :: string where
  "separator = concat (replicate 41 [CHR 0xE2, CHR 0x94, CHR 0x80])"

definition handleMessage ::
  "theme \<Rightarrow> 'n host \<Rightarrow> 'n sdk_message \<Rightarrow> 'n tui_app \<Rightarrow> 'n tui_app" where
  "handleMessage th h message s =
     (case message of
        System_message subtype sid \<Rightarrow>
          if subtype = ''init'' then
            (let s1 = s\<lparr>sessionId := (case sid of Some i \<Rightarrow> i | None \<Rightarrow> [])\<rparr>
             in s1\<lparr>messageQueue := setSessionId (sessionId s1) (messageQueue s1)\<rparr>)
          else s
      | Stream_event event \<Rightarrow> handleStreamEvent th h event s
      | Assistant_message \<Rightarrow> finishStreaming s
      | Tool_progress tool_use_id progress is_error \<Rightarrow>
          if truthy_string tool_use_id \<and> progress = Some ''done'' then
            showToolComplete th h (the tool_use_id)
              (case is_error of Some e \<Rightarrow> e | None \<Rightarrow> False) s
          else s
      | Result_message total_cost_usd duration_ms \<Rightarrow>
          (let s1 = stopLoading s;
               s2 = s1\<lparr>totalCost :=
                         (case total_cost_usd of Some c \<Rightarrow> c | None \<Rightarrow> number_zero h)\<rparr>;
               s3 = addMessage
                      (theme_muted th
                         (separator @ [CHR 0x0A] @ ''Cost: $'' @ number_toFixed h 4 (totalCost s2)
                          @ '' | Duration: ''
                          @ number_toFixed h 1
                              (number_div1000 h
                                 (case duration_ms of Some d \<Rightarrow> d | None \<Rightarrow> number_zero h))
                          @ ''s''))
                      s2
           in requestRender s3)
      | Other_message \<Rightarrow> s)"

subsection \<open>\<open>start\<close>: one session\<close>

text \<open>
  \<open>start\<close> consumes the inbound stream of the SDK, one message at a time, on the single
  cooperative scheduler on which the editor also delivers what the user submits and the
  SDK asks the outbound queue for its next message. A session is therefore a list of
  steps in the order they happen, and the way the inbound stream ends: it completes, or
  it throws an error with a message.
\<close>

datatype 'n step = Inbound "'n sdk_message" | Submit string | Pull

datatype ending = Completed | Threw string

record 'n cli_result =
  result_sessionId :: string
  totalCostUsd :: 'n
  success :: bool

fun session_step :: "theme \<Rightarrow> 'n host \<Rightarrow> 'n tui_app \<Rightarrow> 'n step \<Rightarrow> 'n tui_app" where
  "session_step th h s (Inbound m) = handleMessage th h m s"
| "session_step th h s (Submit t) = handleSubmit th t s"
| "session_step th h s Pull = s\<lparr>messageQueue := next_mq (messageQueue s)\<rparr>"

text \<open>
  The state of a session after a list of steps: \<open>start\<close> first starts the terminal UI and
  gives the focus to the editor.
\<close>

definition session_state :: "theme \<Rightarrow> 'n host \<Rightarrow> 'n step list \<Rightarrow> 'n tui_app" where
  "session_state th h steps = foldl (session_step th h) ((new_TUIApp h)\<lparr>tui_running := True\<rparr>) steps"

text \<open>
  The result of \<open>start\<close> and the state it leaves. When the loop over the inbound stream
  ends, the result has success true; when it throws, the \<open>catch\<close> block appends the error
  message to the transcript, requests a render and the result has success false. The
  \<open>finally\<close> block stops the terminal UI in both cases.
\<close>

definition start ::
  "theme \<Rightarrow> 'n host \<Rightarrow> 'n step list \<Rightarrow> ending \<Rightarrow> 'n cli_result \<times> 'n tui_app" where
  "start th h steps e =
     (let s1 = session_state th h steps
      in (case e of
            Completed \<Rightarrow>
              (\<lparr>result_sessionId = sessionId s1, totalCostUsd = totalCost s1, success = True\<rparr>,
               s1\<lparr>tui_running := False\<rparr>)
          | Threw msg \<Rightarrow>
              (let s2 = requestRender (addMessage (theme_error th (''Error: '' @ msg)) s1)
               in (\<lparr>result_sessionId = sessionId s2, totalCostUsd = totalCost s2, success = False\<rparr>,
                   s2\<lparr>tui_running := False\<rparr>))))"

text \<open>The decoder on a list of inbound messages, from a given state.\<close>

definition handleMessages ::
  "theme \<Rightarrow> 'n host \<Rightarrow> 'n tui_app \<Rightarrow> 'n sdk_message list \<Rightarrow> 'n tui_app" where
  "handleMessages th h s ms = foldl (\<lambda>s m. handleMessage th h m s) s ms"

text \<open>The events of the protocol, as the SDK sends them.\<close>

definition contentBlockStart_text :: stream_event where
  "contentBlockStart_text =
     \<lparr>event_type = ''content_block_start'',
      event_content_block = Some \<lparr>block_type = ''text'', block_id = None, block_name = None\<rparr>,
      event_delta = None\<rparr>"

definition contentBlockStart_toolUse :: "string option \<Rightarrow> string option \<Rightarrow> stream_event" where
  "contentBlockStart_toolUse bid bname =
     \<lparr>event_type = ''content_block_start'',
      event_content_block = Some \<lparr>block_type = ''tool_use'', block_id = bid, block_name = bname\<rparr>,
      event_delta = None\<rparr>"

definition textDelta :: "string \<Rightarrow> stream_event" where
  "textDelta t =
     \<lparr>event_type = ''content_block_delta'', event_content_block = None,
      event_delta = Some \<lparr>delta_type = ''text_delta'', delta_text = Some t, partial_json = None\<rparr>\<rparr>"

definition inputJsonDelta :: "string \<Rightarrow> stream_event" where
  "inputJsonDelta j =
     \<lparr>event_type = ''content_block_delta'', event_content_block = None,
      event_delta =
        Some \<lparr>delta_type = ''input_json_delta'', delta_text = None, partial_json = Some j\<rparr>\<rparr>"

definition contentBlockStop :: stream_event where
  "contentBlockStop =
     \<lparr>event_type = ''content_block_stop'', event_content_block = None, event_delta = None\<rparr>"

subsection \<open>The tool records of a state\<close>

text \<open>A component is a tool invocation record in state running.\<close>

definition is_running :: "'n component \<Rightarrow> bool" where
  "is_running c = (case c of ToolExecution t \<Rightarrow> status t = Running | _ \<Rightarrow> False)"

definition running_refs :: "'n component list \<Rightarrow> nat list" where
  "running_refs cs = filter (\<lambda>r. is_running (cs ! r)) [0..<length cs]"

text \<open>
  The invariant of the tool records: the records in the active set are exactly the
  records in state running, and there is at most one.
\<close>

definition tools_inv :: "'n tui_app \<Rightarrow> bool" where
  "tools_inv s =
     (map snd (activeTools s) = running_refs (components s) \<and> length (activeTools s) \<le> 1)"

text \<open>The bulk closure on one component: a running record becomes done.\<close>

definition close_running :: "theme \<Rightarrow> 'n host \<Rightarrow> 'n component \<Rightarrow> 'n component" where
  "close_running th h c =
     (case c of
        ToolExecution t \<Rightarrow>
          if status t = Running then ToolExecution (setStatus th h Done t) else c
      | _ \<Rightarrow> c)"

text \<open>The lifecycle state of each component that is a tool record.\<close>

definition tool_statuses :: "'n component list \<Rightarrow> tool_status option list" where
  "tool_statuses cs =
     map (\<lambda>c. case c of ToolExecution t \<Rightarrow> Some (status t) | _ \<Rightarrow> None) cs"

subsection \<open>The pending accumulator, read off the event sequence\<close>

text \<open>
  An event opens an accumulator when it is a content-start of kind tool-use that passes
  the guard of the decoder (a non-empty id and a non-empty name); it closes the
  accumulator when it is a content-stop; it carries a fragment when it is a content delta
  of type \<open>input_json_delta\<close> with a non-empty \<open>partial_json\<close>.
\<close>

definition opens_accumulator :: "stream_event \<Rightarrow> bool" where
  "opens_accumulator e =
     (event_type e = ''content_block_start'' \<and>
      (case event_content_block e of
         None \<Rightarrow> False
       | Some block \<Rightarrow>
           block_type block = ''tool_use'' \<and> truthy_string (block_id block)
           \<and> truthy_string (block_name block)))"

definition closes_accumulator :: "stream_event \<Rightarrow> bool" where
  "closes_accumulator e = (event_type e = ''content_block_stop'')"

definition json_fragment :: "stream_event \<Rightarrow> string" where
  "json_fragment e =
     (if event_type e = ''content_block_delta'' then
        (case event_delta e of
           None \<Rightarrow> []
         | Some d \<Rightarrow>
             if delta_type d = ''input_json_delta'' \<and> truthy_string (partial_json d)
             then the (partial_json d) else [])
      else [])"

text \<open>
  The accumulator that is pending after a sequence of events, in the words of the claim:
  the one opened by the most recent opening event, unless a content-stop came after it,
  holding the fragments that arrived since.
\<close>

definition pending_spec :: "stream_event list \<Rightarrow> pending_tool_use option" where
  "pending_spec evs =
     (let since = takeWhile (\<lambda>e. \<not> opens_accumulator e \<and> \<not> closes_accumulator e) (rev evs)
      in (case dropWhile (\<lambda>e. \<not> opens_accumulator e \<and> \<not> closes_accumulator e) (rev evs) of
            [] \<Rightarrow> None
          | e # earlier \<Rightarrow>
              if closes_accumulator e then None
              else
                (case event_content_block e of
                   None \<Rightarrow> None
                 | Some block \<Rightarrow>
                     Some \<lparr>pending_id = the (block_id block),
                           pending_name = the (block_name block),
                           inputJson = concat (map json_fragment (rev since))\<rparr>)))"

text \<open>The stream events among the steps of a session, in order.\<close>

fun inbound_events :: "'n step list \<Rightarrow> stream_event list" where
  "inbound_events [] = []"
| "inbound_events (Inbound (Stream_event e) # steps) = e # inbound_events steps"
| "inbound_events (st # steps) = inbound_events steps"

text \<open>One event moves the accumulator as its kind says.\<close>

definition pending_step :: "stream_event \<Rightarrow> pending_tool_use option \<Rightarrow> pending_tool_use option" where
  "pending_step e p =
     (if opens_accumulator e then
        Some \<lparr>pending_id = the (block_id (the (event_content_block e))),
              pending_name = the (block_name (the (event_content_block e))), inputJson = []\<rparr>
      else if closes_accumulator e then None
      else map_option (\<lambda>p. p\<lparr>inputJson := inputJson p @ json_fragment e\<rparr>) p)"

text \<open>The component at a reference is a given tool record.\<close>

definition keeps_tool :: "nat \<Rightarrow> 'n tool_execution \<Rightarrow> 'n tui_app \<Rightarrow> bool" where
  "keeps_tool r t s = (r < length (components s) \<and> components s ! r = ToolExecution t)"

text \<open>
  The record of the scenario of claim C3 in a given lifecycle state: tool \<open>Read\<close> with
  parsed input \<open>{file_path: "a.ts"}\<close>, displayed as the status glyph, the icon of
  \<open>Read\<close> and \<open>Read: a.ts\<close> (the path in the muted colour), the whole line in the colour
  of the state.
\<close>

definition read_record :: "theme \<Rightarrow> tool_status \<Rightarrow> 'n tool_execution" where
  "read_record th st =
     \<lparr>toolName = ''Read'',
      tool_input = Some (JObject [(''file_path'', JString ''a.ts'')]),
      status = st,
      lines =
        [getColor th st
           (getStatusIcon st @ '' '' @ [CHR 0xF0, CHR 0x9F, CHR 0x93, CHR 0x96] @ '' Read: ''
            @ theme_muted th ''a.ts'')]\<rparr>"

text \<open>
  The queue \<open>q'\<close> is closed and holds no message that \<open>q\<close> did not hold: its buffer is
  what is left of the buffer of \<open>q\<close> after some messages were taken from its front.
\<close>

definition drained :: "message_queue \<Rightarrow> message_queue \<Rightarrow> bool" where
  "drained q q' = (mq_done q' \<and> suffix (queue q') (queue q))"

section \<open>An instance of the host and of the theme\<close>

text \<open>
  The theorems below hold for every host and every theme. To evaluate them on concrete
  inputs, this section gives one instance: a theme that does not style, and a host whose
  numbers are the integers, with a parser for the part of JSON made of objects, arrays,
  strings with the single-character escapes, \<open>true\<close>, \<open>false\<close>, \<open>null\<close> and integer
  literals. On a text outside this part (a \<open>\u\<close> escape, a fraction, an exponent) the
  parser of the instance answers \<open>None\<close>. The length and the slice of a string count the
  characters of the model in the instance, which are the UTF-16 code units on ASCII
  text.
\<close>

definition plain_theme :: theme where
  "plain_theme =
     \<lparr>theme_muted = (\<lambda>s. s), theme_success = (\<lambda>s. s), theme_error = (\<lambda>s. s),
      theme_dim = (\<lambda>s. s)\<rparr>"

definition json_ws :: "char \<Rightarrow> bool" where
  "json_ws c = (c \<in> set [CHR 0x20, CHR 0x09, CHR 0x0A, CHR 0x0D])"

definition skip_ws :: "string \<Rightarrow> string" where
  "skip_ws s = dropWhile json_ws s"

definition unescape :: "char \<Rightarrow> char option" where
  "unescape c =
     (if c = CHR 0x22 then Some (CHR 0x22)
      else if c = CHR 0x5C then Some (CHR 0x5C)
      else if c = CHR ''/'' then Some (CHR ''/'')
      else if c = CHR ''b'' then Some (CHR 0x08)
      else if c = CHR ''f'' then Some (CHR 0x0C)
      else if c = CHR ''n'' then Some (CHR 0x0A)
      else if c = CHR ''r'' then Some (CHR 0x0D)
      else if c = CHR ''t'' then Some (CHR 0x09)
      else None)"

text \<open>The characters of a string up to its closing quote, and the rest of the text.\<close>

fun parse_chars :: "string \<Rightarrow> string \<Rightarrow> (string \<times> string) option" where
  "parse_chars acc [] = None"
| "parse_chars acc [c] = (if c = CHR 0x22 then Some (acc, []) else None)"
| "parse_chars acc (c # d # s) =
     (if c = CHR 0x22 then Some (acc, d # s)
      else if c = CHR 0x5C then
        (case unescape d of Some x \<Rightarrow> parse_chars (acc @ [x]) s | None \<Rightarrow> None)
      else if of_char c < (32::nat) then None
      else parse_chars (acc @ [c]) (d # s))"

definition is_digit :: "char \<Rightarrow> bool" where
  "is_digit c = ((48::nat) \<le> of_char c \<and> of_char c \<le> (57::nat))"

definition digits_value :: "string \<Rightarrow> nat" where
  "digits_value ds = foldl (\<lambda>n c. 10 * n + (of_char c - 48)) 0 ds"

text \<open>An integer literal: no leading zero, and no fraction or exponent after it.\<close>

definition parse_nat :: "string \<Rightarrow> (nat \<times> string) option" where
  "parse_nat s =
     (let ds = takeWhile is_digit s; r = dropWhile is_digit s in
      if ds = [] \<or> (length ds > 1 \<and> hd ds = CHR ''0'') then None
      else if r \<noteq> [] \<and> hd r \<in> set [CHR ''.'', CHR ''e'', CHR ''E''] then None
      else Some (digits_value ds, r))"

fun parse_value :: "nat \<Rightarrow> string \<Rightarrow> (int json \<times> string) option"
  and parse_elements :: "nat \<Rightarrow> int json list \<Rightarrow> string \<Rightarrow> (int json list \<times> string) option"
  and parse_members ::
    "nat \<Rightarrow> (string \<times> int json) list \<Rightarrow> string \<Rightarrow> ((string \<times> int json) list \<times> string) option"
where
  "parse_value 0 s = None"
| "parse_value (Suc n) s =
     (case skip_ws s of
        [] \<Rightarrow> None
      | c # r \<Rightarrow>
          if c = CHR ''{'' then
            (case skip_ws r of
               [] \<Rightarrow> None
             | d # r' \<Rightarrow>
                 if d = CHR ''}'' then Some (JObject [], r')
                 else map_option (\<lambda>(kvs, t). (JObject kvs, t)) (parse_members n [] r))
          else if c = CHR ''['' then
            (case skip_ws r of
               [] \<Rightarrow> None
             | d # r' \<Rightarrow>
                 if d = CHR '']'' then Some (JArray [], r')
                 else map_option (\<lambda>(xs, t). (JArray xs, t)) (parse_elements n [] r))
          else if c = CHR 0x22 then map_option (\<lambda>(str, t). (JString str, t)) (parse_chars [] r)
          else if take 4 (c # r) = ''true'' then Some (JBool True, drop 3 r)
          else if take 5 (c # r) = ''false'' then Some (JBool False, drop 4 r)
          else if take 4 (c # r) = ''null'' then Some (JNull, drop 3 r)
          else if c = CHR ''-'' then
            map_option (\<lambda>(k, t). (JNumber (- int k), t)) (parse_nat r)
          else map_option (\<lambda>(k, t). (JNumber (int k), t)) (parse_nat (c # r)))"
| "parse_elements 0 acc s = None"
| "parse_elements (Suc n) acc s =
     (case parse_value n s of
        None \<Rightarrow> None
      | Some (v, r) \<Rightarrow>
          (case skip_ws r of
             [] \<Rightarrow> None
           | d # r' \<Rightarrow>
               if d = CHR '','' then parse_elements n (acc @ [v]) r'
               else if d = CHR '']'' then Some (acc @ [v], r')
               else None))"
| "parse_members 0 acc s = None"
| "parse_members (Suc n) acc s =
     (case skip_ws s of
        [] \<Rightarrow> None
      | q # r \<Rightarrow>
          if q \<noteq> CHR 0x22 then None
          else
            (case parse_chars [] r of
               None \<Rightarrow> None
             | Some (k, r1) \<Rightarrow>
                 (case skip_ws r1 of
                    [] \<Rightarrow> None
                  | col # r2 \<Rightarrow>
                      if col \<noteq> CHR '':'' then None
                      else
                        (case parse_value n r2 of
                           None \<Rightarrow> None
                         | Some (v, r3) \<Rightarrow>
                             (case skip_ws r3 of
                                [] \<Rightarrow> None
                              | d # r4 \<Rightarrow>
                                  if d = CHR '','' then parse_members n (AList.update k v acc) r4
                                  else if d = CHR ''}'' then Some (AList.update k v acc, r4)
                                  else None)))))"

text \<open>The whole text is one value, with white space around it. The fuel is its length.\<close>

definition json_parse :: "string \<Rightarrow> int json option" where
  "json_parse s =
     (case parse_value (Suc (length s)) s of
        None \<Rightarrow> None
      | Some (v, r) \<Rightarrow> if skip_ws r = [] then Some v else None)"

text \<open>The decimal digits of a natural number, and \<open>String(n)\<close> of an integer.\<close>

fun digits_fuel :: "nat \<Rightarrow> nat \<Rightarrow> string" where
  "digits_fuel 0 n = []"
| "digits_fuel (Suc k) n =
     (if n < 10 then [char_of (48 + n)]
      else digits_fuel k (n div 10) @ [char_of (48 + n mod 10)])"

definition int_String :: "int \<Rightarrow> string" where
  "int_String i =
     (if i < 0 then CHR ''-'' # digits_fuel (Suc (nat (- i))) (nat (- i))
      else digits_fuel (Suc (nat i)) (nat i))"

text \<open>\<open>toFixed\<close> of an integer: its digits, and \<open>k\<close> zeros after the point when \<open>k > 0\<close>.\<close>

definition int_toFixed :: "nat \<Rightarrow> int \<Rightarrow> string" where
  "int_toFixed k i = int_String i @ (if k = 0 then [] else CHR ''.'' # replicate k CHR ''0'')"

text \<open>The division by 1000 of the instance truncates: it is exact on multiples of 1000.\<close>

text \<open>
  The members of \<open>Object.prototype\<close> and the text a template string prints for each:
  the source text of a built-in function, in the form \<open>function f() { [native code] }\<close>,
  and \<open>[object Object]\<close> for \<open>__proto__\<close>, whose value is \<open>Object.prototype\<close> itself.
\<close>

definition native_function :: "string \<Rightarrow> string" where
  "native_function f = ''function '' @ f @ ''() { [native code] }''"

definition Object_prototype :: "(string \<times> string) list" where
  "Object_prototype =
     [(''constructor'', native_function ''Object''),
      (''toString'', native_function ''toString''),
      (''toLocaleString'', native_function ''toLocaleString''),
      (''valueOf'', native_function ''valueOf''),
      (''hasOwnProperty'', native_function ''hasOwnProperty''),
      (''isPrototypeOf'', native_function ''isPrototypeOf''),
      (''propertyIsEnumerable'', native_function ''propertyIsEnumerable''),
      (''__defineGetter__'', native_function ''__defineGetter__''),
      (''__defineSetter__'', native_function ''__defineSetter__''),
      (''__lookupGetter__'', native_function ''__lookupGetter__''),
      (''__lookupSetter__'', native_function ''__lookupSetter__''),
      (''__proto__'', ''[object Object]'')]"

definition int_host :: "int host" where
  "int_host =
     \<lparr>JSON_parse = json_parse, number_truthy = (\<lambda>i. i \<noteq> 0), number_String = int_String,
      number_zero = 0, number_toFixed = int_toFixed, number_div1000 = (\<lambda>i. i div 1000),
      string_length = length, string_slice0 = take,
      inherited_member = map_of Object_prototype\<rparr>"

section \<open>Properties of the outbound message queue\<close>

lemma sid_after_snoc:
  "sid_after sid (ops @ [op]) = (case op of SetSessionId s \<Rightarrow> s | _ \<Rightarrow> sid_after sid ops)"
  by (induction sid ops rule: sid_after.induct) (auto split: queue_op.splits)

lemma submitted_snoc:
  "Close \<notin> set ops \<Longrightarrow>
   submitted sid (ops @ [op]) =
     submitted sid ops @ (case op of Push c \<Rightarrow> [\<lparr>session_id = sid_after sid ops, content = c\<rparr>] | _ \<Rightarrow> [])"
  by (induction sid ops rule: submitted.induct) (auto split: queue_op.splits)

lemma queue_run_snoc: "queue_run q (ops @ [op]) = queue_step (queue_run q ops) op"
  by (simp add: queue_run_def)

lemma fifo_invD:
  assumes "fifo_inv q subs"
  shows "\<not> mq_done q" "map fst (settled q) = [0..<length (settled q)]"
    "map snd (settled q) = map IterValue (take (length (settled q)) subs)"
    "queue q = drop (length (settled q)) subs"
    "resolvers q = [length (settled q)..<promises q]"
    "length (settled q) = min (promises q) (length subs)"
  using assms by (simp_all add: fifo_inv_def Let_def)

lemma fifo_inv_push:
  assumes "fifo_inv q subs"
  shows "fifo_inv (push c q) (subs @ [\<lparr>session_id = mq_sessionId q, content = c\<rparr>])"
proof (cases "resolvers q")
  case Nil
  with fifo_invD(5) [OF assms] have "[length (settled q)..<promises q] = []"
    by simp
  then have "promises q \<le> length (settled q)"
    by auto
  with fifo_invD(6) [OF assms] have le: "promises q \<le> length subs" "length (settled q) = promises q"
    by linarith+
  with fifo_invD [OF assms] Nil show ?thesis
    by (simp add: fifo_inv_def Let_def push_def)
next
  case (Cons r rs)
  with fifo_invD(5) [OF assms] have "[length (settled q)..<promises q] = r # rs"
    by simp
  then have r: "r = length (settled q)" "rs = [Suc (length (settled q))..<promises q]"
    "length (settled q) < promises q"
    by (auto simp: upt_eq_Cons_conv)
  with fifo_invD(6) [OF assms] have n: "length (settled q) = length subs"
    by linarith
  from fifo_invD(1-4) [OF assms] Cons r n show ?thesis
    by (simp add: fifo_inv_def Let_def push_def)
qed

lemma fifo_inv_next:
  assumes "fifo_inv q subs"
  shows "fifo_inv (next_mq q) subs"
proof (cases "queue q")
  case Nil
  with fifo_invD(4) [OF assms] have "drop (length (settled q)) subs = []"
    by simp
  then have "length subs \<le> length (settled q)"
    by simp
  with fifo_invD(6) [OF assms] have le: "length subs \<le> promises q" "length (settled q) = length subs"
    by linarith+
  with fifo_invD [OF assms] Nil show ?thesis
    by (simp add: fifo_inv_def Let_def next_mq_def)
next
  case (Cons m ms)
  with fifo_invD(4) [OF assms] have d: "drop (length (settled q)) subs = m # ms"
    by simp
  then have lt: "length (settled q) < length subs"
    by (cases "length (settled q) < length subs") auto
  with fifo_invD(6) [OF assms] have p: "promises q = length (settled q)"
    by linarith
  from d lt have m: "m = subs ! length (settled q)" "ms = drop (Suc (length (settled q))) subs"
    by (simp_all add: Cons_nth_drop_Suc [symmetric])
  from fifo_invD(5) [OF assms] p have r: "resolvers q = []"
    by simp
  from fifo_invD(1-3) [OF assms] Cons p lt m r show ?thesis
    by (simp add: fifo_inv_def Let_def next_mq_def take_Suc_conv_app_nth)
qed

lemma fifo_inv_setSessionId: "fifo_inv q subs \<Longrightarrow> fifo_inv (setSessionId sid q) subs"
  by (simp add: fifo_inv_def setSessionId_def)

lemma promises_queue_run:
  "promises (queue_run q ops) = promises q + count_list ops Next"
  unfolding queue_run_def
proof (induction ops rule: rev_induct)
  case Nil
  then show ?case by simp
next
  case (snoc op ops)
  then show ?case
    by (cases op)
       (auto simp: push_def next_mq_def setSessionId_def close_def Let_def split: list.splits)
qed

lemma open_run_inv:
  "Close \<notin> set ops \<Longrightarrow>
     fifo_inv (queue_run new_MessageQueue ops) (submitted [] ops) \<and>
     mq_sessionId (queue_run new_MessageQueue ops) = sid_after [] ops"
proof (induction ops rule: rev_induct)
  case Nil
  then show ?case by (simp add: queue_run_def new_MessageQueue_def fifo_inv_def)
next
  case (snoc op ops)
  then have ih: "fifo_inv (queue_run new_MessageQueue ops) (submitted [] ops)"
    "mq_sessionId (queue_run new_MessageQueue ops) = sid_after [] ops" "Close \<notin> set ops"
    "op \<noteq> Close"
    by auto
  show ?case
  proof (cases op)
    case (Push c)
    with ih fifo_inv_push [OF ih(1), of c] show ?thesis
      by (simp add: queue_run_snoc submitted_snoc sid_after_snoc push_def Let_def split: list.splits)
  next
    case Next
    with ih fifo_inv_next [OF ih(1)] show ?thesis
      by (simp add: queue_run_snoc submitted_snoc sid_after_snoc next_mq_def Let_def split: list.splits)
  next
    case (SetSessionId s)
    with ih fifo_inv_setSessionId [OF ih(1), of s] show ?thesis
      by (simp add: queue_run_snoc submitted_snoc sid_after_snoc setSessionId_def)
  next
    case Close
    with ih show ?thesis by simp
  qed
qed


lemma queue_inv_new: "queue_inv new_MessageQueue"
  by (simp add: queue_inv_def new_MessageQueue_def)

lemma queue_inv_step: "queue_inv q \<Longrightarrow> queue_inv (queue_step q op)"
  by (cases op)
     (auto simp: queue_inv_def push_def next_mq_def setSessionId_def close_def Let_def
           upt_eq_Cons_conv comp_def split: list.splits)

lemma queue_inv_run: "queue_inv q \<Longrightarrow> queue_inv (queue_run q ops)"
  unfolding queue_run_def
  by (induction ops rule: rev_induct) (simp_all add: queue_inv_step)

lemma queue_inv_distinct: "queue_inv q \<Longrightarrow> distinct (map fst (settled q) @ resolvers q)"
  by (simp only: queue_inv_def distinct_upt)

lemma mq_done_step: "mq_done q \<Longrightarrow> mq_done (queue_step q op)"
  by (cases op) (auto simp: push_def next_mq_def setSessionId_def close_def Let_def split: list.splits)

lemma mq_done_run: "mq_done q \<Longrightarrow> mq_done (queue_run q ops)"
  unfolding queue_run_def
  by (induction ops rule: rev_induct) (simp_all add: mq_done_step)

lemma next_mq_closed_Nil:
  "mq_done q \<Longrightarrow> queue q = [] \<Longrightarrow>
   next_mq q = q\<lparr>promises := Suc (promises q), settled := settled q @ [(promises q, IterDone)]\<rparr>"
  by (simp add: next_mq_def Let_def)

lemma next_mq_Cons:
  "queue q = m # ms \<Longrightarrow>
   next_mq q =
     q\<lparr>promises := Suc (promises q), queue := ms,
       settled := settled q @ [(promises q, IterValue m)]\<rparr>"
  by (simp add: next_mq_def Let_def)

lemma next_after_close:
  assumes "mq_done q" "resolvers q = []"
  shows "map fst (settled ((next_mq ^^ k) q)) = map fst (settled q) @ [promises q..<promises q + k]
       \<and> map snd (settled ((next_mq ^^ k) q)) =
           map snd (settled q) @ map IterValue (take k (queue q))
             @ replicate (k - length (queue q)) IterDone
       \<and> queue ((next_mq ^^ k) q) = drop k (queue q)
       \<and> promises ((next_mq ^^ k) q) = promises q + k
       \<and> mq_done ((next_mq ^^ k) q) \<and> resolvers ((next_mq ^^ k) q) = []"
proof (induction k)
  case 0
  from assms show ?case by simp
next
  case (Suc k)
  let ?qk = "(next_mq ^^ k) q"
  have unfold: "(next_mq ^^ Suc k) q = next_mq ?qk"
    by simp
  from Suc have ih: "map fst (settled ?qk) = map fst (settled q) @ [promises q..<promises q + k]"
    "map snd (settled ?qk) =
       map snd (settled q) @ map IterValue (take k (queue q))
         @ replicate (k - length (queue q)) IterDone"
    "queue ?qk = drop k (queue q)" "promises ?qk = promises q + k"
    "mq_done ?qk" "resolvers ?qk = []"
    by simp_all
  show ?case
  proof (cases "queue ?qk")
    case Nil
    with ih(3) have le: "length (queue q) \<le> k" by simp
    then have sub: "Suc k - length (queue q) = Suc (k - length (queue q))" by simp
    have "next_mq ?qk =
        ?qk\<lparr>promises := Suc (promises ?qk), settled := settled ?qk @ [(promises ?qk, IterDone)]\<rparr>"
      using ih(5) Nil by (rule next_mq_closed_Nil)
    with ih le sub show ?thesis
      unfolding unfold by (simp add: replicate_append_same)
  next
    case (Cons m ms)
    with ih(3) have d: "drop k (queue q) = m # ms" by simp
    then have lt: "k < length (queue q)"
      by (cases "k < length (queue q)") auto
    with d have m: "m = queue q ! k" "ms = drop (Suc k) (queue q)"
      by (simp_all add: Cons_nth_drop_Suc [symmetric])
    have "next_mq ?qk =
        ?qk\<lparr>promises := Suc (promises ?qk), queue := ms,
            settled := settled ?qk @ [(promises ?qk, IterValue m)]\<rparr>"
      using Cons by (rule next_mq_Cons)
    with ih lt m show ?thesis
      unfolding unfold by (simp add: take_Suc_conv_app_nth)
  qed
qed

text \<open>
  Claim C8. For every sequence of pushes and consumer reads on the outbound message queue
  before it is closed, the messages are delivered to the consumer in exactly the order
  they were pushed, none dropped, duplicated or reordered: the \<open>i\<close>-th promise returned by
  \<open>next\<close> receives the \<open>i\<close>-th submitted message, as many messages are delivered as both
  pushes and reads allow, the remaining messages are buffered in order and the remaining
  promises wait in order.
\<close>

theorem C8_fifo_delivery:
  assumes "Close \<notin> set ops"
  shows "let q = queue_run new_MessageQueue ops;
             subs = submitted [] ops;
             n = length (settled q)
         in settled q = zip [0..<n] (map IterValue (take n subs))
            \<and> queue q = drop n subs
            \<and> resolvers q = [n..<count_list ops Next]
            \<and> n = min (count_list ops Next) (length subs)"
proof -
  let ?q = "queue_run new_MessageQueue ops"
  from assms have inv: "fifo_inv ?q (submitted [] ops)"
    by (simp add: open_run_inv)
  have p: "promises ?q = count_list ops Next"
    by (simp add: promises_queue_run new_MessageQueue_def)
  have "settled ?q = zip (map fst (settled ?q)) (map snd (settled ?q))"
    by (simp add: zip_map_fst_snd)
  with fifo_invD(2,3) [OF inv]
  have "settled ?q =
      zip [0..<length (settled ?q)]
        (map IterValue (take (length (settled ?q)) (submitted [] ops)))"
    by simp
  with fifo_invD(4-6) [OF inv] p show ?thesis
    by (simp add: Let_def)
qed

theorem C8_fifo_delivery_witness:
  "Close \<notin> set [Push ''a'', Next, Next, Next, SetSessionId ''s1'', Push ''b'', Push ''c'', Push ''d'']
   \<and> settled (queue_run new_MessageQueue
        [Push ''a'', Next, Next, Next, SetSessionId ''s1'', Push ''b'', Push ''c'', Push ''d'']) =
      [(0, IterValue \<lparr>session_id = [], content = ''a''\<rparr>),
       (1, IterValue \<lparr>session_id = ''s1'', content = ''b''\<rparr>),
       (2, IterValue \<lparr>session_id = ''s1'', content = ''c''\<rparr>)]
   \<and> queue (queue_run new_MessageQueue
        [Push ''a'', Next, Next, Next, SetSessionId ''s1'', Push ''b'', Push ''c'', Push ''d'']) =
      [\<lparr>session_id = ''s1'', content = ''d''\<rparr>]"
  using C8_fifo_delivery
    [of "[Push ''a'', Next, Next, Next, SetSessionId ''s1'', Push ''b'', Push ''c'', Push ''d'']"]
  by (simp add: queue_run_def push_def next_mq_def setSessionId_def new_MessageQueue_def)

text \<open>
  Claim C7, as the claim states it, fails: a message buffered before the queue is closed
  is still handed to the next \<open>next()\<close> call, which therefore does not observe
  end-of-stream.
\<close>

theorem C7_buffered_message_after_close:
  "settled (next_mq (close (push ''hi'' new_MessageQueue))) =
     [(0, IterValue \<lparr>session_id = [], content = ''hi''\<rparr>)]"
  by (simp add: next_mq_def close_def push_def new_MessageQueue_def)

text \<open>
  Claim C7, amended. Once the outbound message queue is closed, every subsequent push is
  a silent no-op, whatever calls were made in between; each consumer that was waiting at
  the moment of closing receives the end-of-stream sentinel, and no promise is ever
  settled twice; the later \<open>next()\<close> calls first receive the messages that were still
  buffered at closing, in order, and observe end-of-stream from then on, which is at once
  when a consumer was waiting at closing, since then nothing is buffered.
\<close>

theorem C7_closed_queue:
  "let q = queue_run new_MessageQueue ops; qc = close q in
     push c (queue_run qc ops') = queue_run qc ops'
     \<and> settled qc = settled q @ map (\<lambda>r. (r, IterDone)) (resolvers q)
     \<and> resolvers qc = []
     \<and> distinct (map fst (settled q) @ resolvers q)
     \<and> distinct (map fst (settled (queue_run qc ops')))
     \<and> (resolvers q = [] \<or> queue q = [])
     \<and> map fst (settled ((next_mq ^^ k) qc)) =
         map fst (settled qc) @ [promises q..<promises q + k]
     \<and> map snd (settled ((next_mq ^^ k) qc)) =
         map snd (settled qc) @ map IterValue (take k (queue q))
           @ replicate (k - length (queue q)) IterDone"
proof -
  let ?q = "queue_run new_MessageQueue ops"
  let ?qc = "close ?q"
  have inv: "queue_inv ?q"
    by (simp add: queue_inv_run queue_inv_new)
  have "queue_inv (queue_step ?q Close)"
    using inv by (rule queue_inv_step)
  then have invc: "queue_inv ?qc"
    by simp
  have dn: "mq_done ?qc" and rs: "resolvers ?qc = []"
    and qq: "queue ?qc = queue ?q" and pp: "promises ?qc = promises ?q"
    by (simp_all add: close_def)
  have 1: "push c (queue_run ?qc ops') = queue_run ?qc ops'"
    using mq_done_run [OF dn, of ops'] by (simp add: push_def)
  have 2: "settled ?qc = settled ?q @ map (\<lambda>r. (r, IterDone)) (resolvers ?q)"
    by (simp add: close_def)
  have 4: "distinct (map fst (settled ?q) @ resolvers ?q)"
    using inv by (rule queue_inv_distinct)
  have "distinct (map fst (settled (queue_run ?qc ops')) @ resolvers (queue_run ?qc ops'))"
    using queue_inv_run [OF invc, of ops'] by (rule queue_inv_distinct)
  then have 5: "distinct (map fst (settled (queue_run ?qc ops')))"
    by simp
  have 6: "resolvers ?q = [] \<or> queue ?q = []"
    using inv by (auto simp: queue_inv_def)
  note n = next_after_close [OF dn rs, of k, unfolded qq pp]
  from 1 2 rs 4 5 6 n show ?thesis
    by (simp only: Let_def)
qed

section \<open>Properties of the streaming decoder\<close>

subsection \<open>Streamed text\<close>

lemma length_on_tool [simp]: "length (on_tool f r cs) = length cs"
  by (simp add: on_tool_def split: component.splits)

lemma length_on_streaming [simp]: "length (on_streaming f r cs) = length cs"
  by (simp add: on_streaming_def split: component.splits)

lemma length_loader_stop [simp]: "length (loader_stop r cs) = length cs"
  by (simp add: loader_stop_def split: component.splits)

lemma length_foldl_on_tool [simp]:
  "length (foldl (\<lambda>cs tool. on_tool f tool cs) cs rs) = length cs"
  by (induction rs arbitrary: cs) simp_all

lemma length_components_stopLoading [simp]:
  "length (components (stopLoading s)) = length (components s)"
  by (simp add: stopLoading_def split: option.splits)

lemma length_components_markAllToolsDone [simp]:
  "length (components (markAllToolsDone th h s)) = length (components s)"
  by (simp add: markAllToolsDone_def requestRender_def)

lemma activeTools_markAllToolsDone [simp]: "activeTools (markAllToolsDone th h s) = []"
  by (simp add: markAllToolsDone_def requestRender_def)

lemma currentStreaming_startStreaming:
  "currentStreaming (startStreaming s) = Some (length (components s))"
  by (simp add: startStreaming_def Let_def addChild_def)

lemma startStreaming_fields:
  "currentStreaming (startStreaming s) = Some (length (components s))"
  "components (startStreaming s) = components (stopLoading s) @ [StreamingText new_StreamingText]"
  "messagesContainer (startStreaming s) = messagesContainer (stopLoading s) @ [length (components s)]"
  "activeTools (startStreaming s) = activeTools s"
  by (simp_all add: startStreaming_def Let_def addChild_def stopLoading_def split: option.splits)

lemma textDelta_step:
  assumes "currentStreaming s = Some r" "r < length (components s)"
    "components s ! r = StreamingText \<lparr>st_text = t, st_markdown = t\<rparr>"
  shows "currentStreaming (handleStreamEvent th h (textDelta f) s) = Some r"
    "length (components (handleStreamEvent th h (textDelta f) s)) = length (components s)"
    "components (handleStreamEvent th h (textDelta f) s) ! r =
       StreamingText \<lparr>st_text = t @ f, st_markdown = t @ f\<rparr>"
    "messagesContainer (handleStreamEvent th h (textDelta f) s) = messagesContainer s"
    "activeTools (handleStreamEvent th h (textDelta f) s) = activeTools s"
  using assms
  by (simp_all add: handleStreamEvent_def textDelta_def appendStreamingText_def requestRender_def
      on_streaming_def appendText_def)

lemma textDeltas_run:
  assumes "currentStreaming s = Some r" "r < length (components s)"
    "components s ! r = StreamingText \<lparr>st_text = t, st_markdown = t\<rparr>"
  shows "currentStreaming (foldl (\<lambda>s f. handleStreamEvent th h (textDelta f) s) s fs) = Some r
    \<and> length (components (foldl (\<lambda>s f. handleStreamEvent th h (textDelta f) s) s fs)) = length (components s)
    \<and> components (foldl (\<lambda>s f. handleStreamEvent th h (textDelta f) s) s fs) ! r =
       StreamingText \<lparr>st_text = t @ concat fs, st_markdown = t @ concat fs\<rparr>
    \<and> messagesContainer (foldl (\<lambda>s f. handleStreamEvent th h (textDelta f) s) s fs) = messagesContainer s
    \<and> activeTools (foldl (\<lambda>s f. handleStreamEvent th h (textDelta f) s) s fs) = activeTools s"
  using assms
proof (induction fs arbitrary: s t)
  case Nil
  then show ?case by simp
next
  case (Cons f fs)
  note st = textDelta_step [OF Cons.prems, of th h f]
  from Cons.IH [OF st(1) _ st(3)] st Cons.prems(2) show ?case
    by simp
qed


lemma contentBlockStop_no_active:
  assumes "activeTools x = []"
  shows "currentStreaming (handleStreamEvent th h contentBlockStop x) = currentStreaming x"
    "components (handleStreamEvent th h contentBlockStop x) = components x"
  using assms
  by (simp_all add: handleStreamEvent_def contentBlockStop_def split: option.splits)

lemma contentBlockStart_text_eq:
  "handleStreamEvent th h contentBlockStart_text s = startStreaming (markAllToolsDone th h s)"
  by (simp add: handleStreamEvent_def contentBlockStart_text_def)

text \<open>
  Claim C1. For every sequence of text-delta events arriving between a content-start(text)
  event and the corresponding content-stop, the open streamed text block's accumulated
  text equals the concatenation of the delta fragments in arrival order: the block is the
  component created by the content-start, it is the last node of the transcript, and the
  content-stop changes no component.
\<close>

theorem C1_streamed_text_is_concatenation:
  "let r = length (components s);
       s1 = handleStreamEvent th h contentBlockStart_text s;
       s2 = foldl (\<lambda>s f. handleStreamEvent th h (textDelta f) s) s1 frags;
       s3 = handleStreamEvent th h contentBlockStop s2
   in currentStreaming s2 = Some r
      \<and> components s2 ! r =
          StreamingText \<lparr>st_text = concat frags, st_markdown = concat frags\<rparr>
      \<and> messagesContainer s2 = messagesContainer s1
      \<and> last (messagesContainer s1) = r
      \<and> currentStreaming s3 = Some r
      \<and> components s3 = components s2"
proof -
  let ?r = "length (components s)"
  let ?s1 = "handleStreamEvent th h contentBlockStart_text s"
  let ?s2 = "foldl (\<lambda>s f. handleStreamEvent th h (textDelta f) s) ?s1 frags"
  have s1: "?s1 = startStreaming (markAllToolsDone th h s)"
    by (rule contentBlockStart_text_eq)
  have a: "currentStreaming ?s1 = Some ?r"
    and b: "?r < length (components ?s1)"
    and c: "components ?s1 ! ?r = StreamingText \<lparr>st_text = [], st_markdown = []\<rparr>"
    and d: "last (messagesContainer ?s1) = ?r"
    and e: "activeTools ?s1 = []"
    unfolding s1 by (simp_all add: startStreaming_fields nth_append new_StreamingText_def)
  note run = textDeltas_run [OF a b c, of th h frags]
  from run e have act: "activeTools ?s2 = []"
    by simp
  note stop = contentBlockStop_no_active [OF act, of th h]
  from run d stop show ?thesis
    unfolding Let_def by (simp only: simp_thms append_Nil)
qed

subsection \<open>The tool records and the active set\<close>

lemma running_refs_cong:
  assumes "length cs' = length cs" "\<And>i. i < length cs \<Longrightarrow> is_running (cs' ! i) = is_running (cs ! i)"
  shows "running_refs cs' = running_refs cs"
  unfolding running_refs_def using assms by (auto intro: filter_cong)

lemma is_running_on_streaming:
  "i < length cs \<Longrightarrow> is_running (on_streaming f r cs ! i) = is_running (cs ! i)"
  by (cases "cs ! r"; cases "i = r") (simp_all add: on_streaming_def is_running_def)

lemma is_running_loader_stop:
  "i < length cs \<Longrightarrow> is_running (loader_stop r cs ! i) = is_running (cs ! i)"
  by (cases "cs ! r"; cases "i = r") (simp_all add: loader_stop_def is_running_def)

lemma running_refs_on_streaming [simp]: "running_refs (on_streaming f r cs) = running_refs cs"
  by (rule running_refs_cong) (simp_all add: is_running_on_streaming)

lemma running_refs_loader_stop [simp]: "running_refs (loader_stop r cs) = running_refs cs"
  by (rule running_refs_cong) (simp_all add: is_running_loader_stop)

lemma running_refs_snoc:
  "running_refs (cs @ [c]) = running_refs cs @ (if is_running c then [length cs] else [])"
proof -
  have "filter (\<lambda>r. is_running ((cs @ [c]) ! r)) [0..<length cs]
      = filter (\<lambda>r. is_running (cs ! r)) [0..<length cs]"
    by (rule filter_cong) (simp_all add: nth_append)
  then show ?thesis
    by (simp add: running_refs_def)
qed

lemma running_refs_Nil_iff: "running_refs cs = [] \<longleftrightarrow> (\<forall>i<length cs. \<not> is_running (cs ! i))"
  by (auto simp: running_refs_def filter_empty_conv)

lemma running_refs_single:
  assumes "running_refs cs = [r]"
  shows "r < length cs" "is_running (cs ! r)" "\<And>i. i < length cs \<Longrightarrow> is_running (cs ! i) \<Longrightarrow> i = r"
proof -
  have s: "set (running_refs cs) = {r}" using assms by simp
  then have "r \<in> set (running_refs cs)" by simp
  then show "r < length cs" "is_running (cs ! r)"
    by (simp_all add: running_refs_def)
  fix i assume "i < length cs" "is_running (cs ! i)"
  then have "i \<in> set (running_refs cs)" by (simp add: running_refs_def)
  with s show "i = r" by simp
qed

lemma is_running_setInput:
  "i < length cs \<Longrightarrow> is_running (on_tool (setInput th h x) r cs ! i) = is_running (cs ! i)"
  by (cases "cs ! r"; cases "i = r")
     (simp_all add: on_tool_def is_running_def setInput_def updateLines_def Let_def)

lemma running_refs_setInput [simp]:
  "running_refs (on_tool (setInput th h x) r cs) = running_refs cs"
  by (rule running_refs_cong) (simp_all add: is_running_setInput)

lemma status_setStatus [simp]: "status (setStatus th h st t) = st"
  by (simp add: setStatus_def updateLines_def Let_def)

lemma running_refs_finish:
  assumes "running_refs cs = [r]" "st \<noteq> Running"
  shows "running_refs (on_tool (setStatus th h st) r cs) = []"
proof -
  note r = running_refs_single [OF assms(1)]
  from r(1,2) obtain t where t: "cs ! r = ToolExecution t"
    by (auto simp: is_running_def split: component.splits)
  have "\<not> is_running (on_tool (setStatus th h st) r cs ! i)" if "i < length cs" for i
  proof (cases "i = r")
    case True
    with r(1) t assms(2) show ?thesis
      by (simp add: on_tool_def is_running_def)
  next
    case False
    with that r(3) [of i] t show ?thesis
      by (auto simp: on_tool_def)
  qed
  then show ?thesis
    by (simp add: running_refs_Nil_iff)
qed

lemma close_running_finish:
  assumes "running_refs cs = [r]"
  shows "on_tool (setStatus th h Done) r cs = map (close_running th h) cs"
proof (rule nth_equalityI)
  show "length (on_tool (setStatus th h Done) r cs) = length (map (close_running th h) cs)"
    by (simp add: on_tool_def split: component.splits)
next
  note r = running_refs_single [OF assms(1)]
  from r(1,2) obtain t where t: "cs ! r = ToolExecution t" "status t = Running"
    by (auto simp: is_running_def split: component.splits)
  fix i assume "i < length (on_tool (setStatus th h Done) r cs)"
  then have i: "i < length cs"
    by (cases "cs ! r") (simp_all add: on_tool_def split: if_splits)
  show "on_tool (setStatus th h Done) r cs ! i = map (close_running th h) cs ! i"
  proof (cases "i = r")
    case True
    with r(1) t show ?thesis
      by (simp add: on_tool_def close_running_def)
  next
    case False
    with i r(3) [of i] have "\<not> is_running (cs ! i)" by auto
    with False i t show ?thesis
      by (auto simp: on_tool_def close_running_def is_running_def split: component.splits)
  qed
qed

lemma close_running_none:
  assumes "running_refs cs = []"
  shows "map (close_running th h) cs = cs"
proof (rule map_idI)
  fix c assume "c \<in> set cs"
  then obtain i where "i < length cs" "c = cs ! i"
    by (auto simp: in_set_conv_nth)
  with assms have "\<not> is_running c"
    by (simp add: running_refs_Nil_iff)
  then show "close_running th h c = c"
    by (auto simp: close_running_def is_running_def split: component.splits)
qed

lemma tools_inv_cases:
  assumes "tools_inv s"
  obtains (none) "activeTools s = []" "running_refs (components s) = []"
  | (one) k r where "activeTools s = [(k, r)]" "running_refs (components s) = [r]"
proof (cases "activeTools s")
  case Nil
  with assms that(1) show ?thesis by (simp add: tools_inv_def)
next
  case (Cons a as)
  with assms have "as = []" by (simp add: tools_inv_def)
  with Cons assms that(2) [of "fst a" "snd a"] show ?thesis
    by (simp add: tools_inv_def)
qed

lemma tools_inv_new: "tools_inv ((new_TUIApp h)\<lparr>tui_running := True\<rparr>)"
  by (simp add: tools_inv_def new_TUIApp_def running_refs_def)

lemma tools_inv_addChild:
  "tools_inv s \<Longrightarrow> \<not> is_running c \<Longrightarrow> tools_inv (addChild c s)"
  by (simp add: tools_inv_def addChild_def running_refs_snoc)

lemma tools_inv_addMessage: "tools_inv s \<Longrightarrow> tools_inv (addMessage t s)"
  by (simp add: addMessage_def tools_inv_addChild is_running_def)

lemma tools_inv_requestRender [simp]: "tools_inv (requestRender s) = tools_inv s"
  by (simp add: tools_inv_def requestRender_def)

lemma tools_inv_startLoading: "tools_inv s \<Longrightarrow> tools_inv (startLoading s)"
  by (auto simp: startLoading_def tools_inv_def addChild_def running_refs_snoc is_running_def
      split: option.splits)

lemma tools_inv_stopLoading: "tools_inv s \<Longrightarrow> tools_inv (stopLoading s)"
  by (auto simp: stopLoading_def tools_inv_def split: option.splits)

lemma tools_inv_startStreaming: "tools_inv s \<Longrightarrow> tools_inv (startStreaming s)"
  using tools_inv_stopLoading [of s]
  by (simp add: startStreaming_def Let_def tools_inv_def addChild_def running_refs_snoc is_running_def)

lemma tools_inv_appendStreamingText: "tools_inv s \<Longrightarrow> tools_inv (appendStreamingText t s)"
  using tools_inv_startStreaming [of s]
  by (auto simp: appendStreamingText_def Let_def tools_inv_def requestRender_def split: option.splits)

lemma tools_inv_finishStreaming: "tools_inv s \<Longrightarrow> tools_inv (finishStreaming s)"
  by (simp add: finishStreaming_def tools_inv_def)

lemma markAllToolsDone_components:
  assumes "tools_inv s"
  shows "components (markAllToolsDone th h s) = map (close_running th h) (components s)
       \<and> running_refs (components (markAllToolsDone th h s)) = []"
  using assms
proof (cases rule: tools_inv_cases)
  case none
  then show ?thesis by (simp add: markAllToolsDone_def close_running_none)
next
  case (one k r)
  then show ?thesis
    by (simp add: markAllToolsDone_def requestRender_def close_running_finish [symmetric]
        running_refs_finish)
qed

lemma tools_inv_markAllToolsDone:
  assumes "tools_inv s"
  shows "tools_inv (markAllToolsDone th h s)"
proof -
  from markAllToolsDone_components [OF assms, of th h]
  have "running_refs (components (markAllToolsDone th h s)) = []"
    by (rule conjunct2)
  then show ?thesis
    by (simp add: tools_inv_def)
qed

lemma tools_inv_showToolComplete:
  assumes "tools_inv s"
  shows "tools_inv (showToolComplete th h i e s)"
  using assms
proof (cases rule: tools_inv_cases)
  case none
  with assms show ?thesis by (simp add: showToolComplete_def)
next
  case (one k r)
  show ?thesis
  proof (cases "k = i")
    case True
    with one running_refs_finish [OF one(2), of "if e then Error else Done" th h] show ?thesis
      by (simp add: showToolComplete_def tools_inv_def requestRender_def)
  next
    case False
    with one assms show ?thesis by (simp add: showToolComplete_def)
  qed
qed

lemma tools_inv_showToolStart:
  assumes "tools_inv s" "activeTools s = []"
  shows "tools_inv (showToolStart th h i name input s)"
  using assms
  by (simp add: showToolStart_def Let_def tools_inv_def requestRender_def addChild_def
      running_refs_snoc is_running_def new_ToolExecution_def updateLines_def)

lemma tools_inv_pending [simp]: "tools_inv (s\<lparr>pendingToolUse := p\<rparr>) = tools_inv s"
  by (simp add: tools_inv_def)

lemma tools_inv_handleStreamEvent:
  assumes "tools_inv s"
  shows "tools_inv (handleStreamEvent th h ev s)"
proof -
  have start_text: "tools_inv (startStreaming (markAllToolsDone th h s))"
    using assms by (simp add: tools_inv_markAllToolsDone tools_inv_startStreaming)
  have start_tool: "tools_inv (showToolStart th h i name None (markAllToolsDone th h s))" for i name
    using assms by (simp add: tools_inv_markAllToolsDone tools_inv_showToolStart)
  have delta: "tools_inv (appendStreamingText t s)" for t
    using assms by (rule tools_inv_appendStreamingText)
  have json: "tools_inv (s\<lparr>pendingToolUse := p\<rparr>)" for p
    using assms by simp
  have stop: "tools_inv (requestRender (s\<lparr>components := on_tool (setInput th h x) r (components s)\<rparr>))" for x r
    using assms by (simp add: tools_inv_def requestRender_def)
  have ld: "tools_inv (stopLoading s)"
    using assms by (rule tools_inv_stopLoading)
  show ?thesis
    unfolding handleStreamEvent_def Let_def
    using assms start_text start_tool delta json stop ld
    by (simp split: option.splits)
qed

lemma tools_inv_messageQueue [simp]: "tools_inv (s\<lparr>messageQueue := q\<rparr>) = tools_inv s"
  by (simp add: tools_inv_def)

lemma tools_inv_handleMessage:
  assumes "tools_inv s"
  shows "tools_inv (handleMessage th h m s)"
proof (cases m)
  case (System_message subtype sid)
  with assms show ?thesis
    by (simp add: handleMessage_def Let_def tools_inv_def)
next
  case (Stream_event ev)
  with assms show ?thesis
    by (simp add: handleMessage_def tools_inv_handleStreamEvent)
next
  case Assistant_message
  with assms show ?thesis
    by (simp add: handleMessage_def tools_inv_finishStreaming)
next
  case (Tool_progress i p e)
  with assms show ?thesis
    by (simp add: handleMessage_def tools_inv_showToolComplete)
next
  case (Result_message c d)
  have "tools_inv (addMessage t ((stopLoading s)\<lparr>totalCost := x\<rparr>))" for t x
  proof -
    from assms have "tools_inv (stopLoading s)" by (rule tools_inv_stopLoading)
    then have "tools_inv ((stopLoading s)\<lparr>totalCost := x\<rparr>)" by (simp add: tools_inv_def)
    then show ?thesis by (rule tools_inv_addMessage)
  qed
  with Result_message show ?thesis
    by (simp add: handleMessage_def Let_def)
next
  case Other_message
  with assms show ?thesis
    by (simp add: handleMessage_def)
qed

lemma tools_inv_stop: "tools_inv s \<Longrightarrow> tools_inv (stop s)"
  by (simp add: stop_def tools_inv_def)

lemma tools_inv_handleSubmit:
  assumes "tools_inv s"
  shows "tools_inv (handleSubmit th t s)"
proof -
  have a: "tools_inv (addMessage x s)" for x
    using assms by (rule tools_inv_addMessage)
  then have b: "tools_inv (startLoading (addMessage x s))" for x
    by (rule tools_inv_startLoading)
  from assms a b tools_inv_stop [OF assms] show ?thesis
    by (simp add: handleSubmit_def Let_def)
qed

lemma tools_inv_session_step: "tools_inv s \<Longrightarrow> tools_inv (session_step th h s st)"
  by (cases st) (simp_all add: tools_inv_handleMessage tools_inv_handleSubmit)

lemma tools_inv_session_state: "tools_inv (session_state th h steps)"
  unfolding session_state_def
  by (induction steps rule: rev_induct) (simp_all add: tools_inv_new tools_inv_session_step)

lemma contentBlockStart_toolUse_eq:
  assumes "bid \<noteq> []" "bname \<noteq> []"
  shows "handleStreamEvent th h (contentBlockStart_toolUse (Some bid) (Some bname)) s =
     (showToolStart th h bid bname None (markAllToolsDone th h s))
       \<lparr>pendingToolUse := Some \<lparr>pending_id = bid, pending_name = bname, inputJson = []\<rparr>\<rparr>"
  using assms by (simp add: handleStreamEvent_def contentBlockStart_toolUse_def Let_def)

lemma showToolStart_fields:
  "components (showToolStart th h i name input s) =
     components s @ [ToolExecution (new_ToolExecution th h name input Running)]"
  "messagesContainer (showToolStart th h i name input s) =
     messagesContainer s @ [length (components s)]"
  "activeTools (showToolStart th h i name input s) =
     AList.update i (length (components s)) (activeTools s)"
  "renderRequests (showToolStart th h i name input s) = Suc (renderRequests s)"
  "pendingToolUse (showToolStart th h i name input s) = pendingToolUse s"
  "currentStreaming (showToolStart th h i name input s) = currentStreaming s"
  "loader (showToolStart th h i name input s) = loader s"
  "messageQueue (showToolStart th h i name input s) = messageQueue s"
  by (simp_all add: showToolStart_def Let_def requestRender_def addChild_def)

lemma messagesContainer_markAllToolsDone [simp]:
  "messagesContainer (markAllToolsDone th h s) = messagesContainer s"
  by (simp add: markAllToolsDone_def requestRender_def)



subsection \<open>The pending tool-input accumulator\<close>

lemma pendingToolUse_stopLoading [simp]: "pendingToolUse (stopLoading s) = pendingToolUse s"
  by (simp add: stopLoading_def split: option.splits)

lemma pendingToolUse_markAllToolsDone [simp]:
  "pendingToolUse (markAllToolsDone th h s) = pendingToolUse s"
  by (simp add: markAllToolsDone_def requestRender_def)

lemma pendingToolUse_startStreaming [simp]: "pendingToolUse (startStreaming s) = pendingToolUse s"
  by (simp add: startStreaming_def Let_def addChild_def)

lemma pendingToolUse_appendStreamingText [simp]:
  "pendingToolUse (appendStreamingText t s) = pendingToolUse s"
  by (simp add: appendStreamingText_def Let_def requestRender_def currentStreaming_startStreaming
      split: option.splits)

lemma pendingToolUse_showToolComplete [simp]:
  "pendingToolUse (showToolComplete th h i e s) = pendingToolUse s"
  by (simp add: showToolComplete_def requestRender_def split: option.splits)

lemma pendingToolUse_addMessage [simp]: "pendingToolUse (addMessage t s) = pendingToolUse s"
  by (simp add: addMessage_def addChild_def)

lemma pendingToolUse_startLoading [simp]: "pendingToolUse (startLoading s) = pendingToolUse s"
  by (simp add: startLoading_def addChild_def split: option.splits)

lemma pendingToolUse_handleSubmit [simp]: "pendingToolUse (handleSubmit th t s) = pendingToolUse s"
  by (simp add: handleSubmit_def Let_def stop_def requestRender_def)

lemma pendingToolUse_handleStreamEvent:
  "pendingToolUse (handleStreamEvent th h e s) = pending_step e (pendingToolUse s)"
proof (cases "event_type e = ''content_block_start''")
  case True
  then show ?thesis
    by (cases "pendingToolUse s")
       (auto simp: handleStreamEvent_def pending_step_def opens_accumulator_def
          closes_accumulator_def json_fragment_def Let_def showToolStart_fields
          split: option.splits)
next
  case start: False
  show ?thesis
  proof (cases "event_type e = ''content_block_delta''")
    case True
    then show ?thesis
      by (cases "pendingToolUse s")
         (auto simp: handleStreamEvent_def pending_step_def opens_accumulator_def
            closes_accumulator_def json_fragment_def split: option.splits)
  next
    case delta: False
    show ?thesis
    proof (cases "event_type e = ''content_block_stop''")
      case True
      then show ?thesis
        by (auto simp: handleStreamEvent_def pending_step_def opens_accumulator_def
            closes_accumulator_def Let_def requestRender_def split: option.splits)
    next
      case False
      with start delta show ?thesis
        by (cases "pendingToolUse s")
           (auto simp: handleStreamEvent_def pending_step_def opens_accumulator_def
              closes_accumulator_def json_fragment_def)
    qed
  qed
qed

lemma pending_spec_snoc: "pending_spec (evs @ [e]) = pending_step e (pending_spec evs)"
proof (cases "opens_accumulator e")
  case True
  then have "\<not> closes_accumulator e"
    by (auto simp: opens_accumulator_def closes_accumulator_def)
  with True show ?thesis
    by (auto simp: pending_spec_def pending_step_def opens_accumulator_def split: option.splits)
next
  case False
  show ?thesis
  proof (cases "closes_accumulator e")
    case True
    with False show ?thesis
      by (simp add: pending_spec_def pending_step_def)
  next
    case nc: False
    show ?thesis
    proof (cases "dropWhile (\<lambda>e. \<not> opens_accumulator e \<and> \<not> closes_accumulator e) (rev evs)")
      case Nil
      with False nc show ?thesis
        by (simp add: pending_spec_def pending_step_def del: dropWhile_eq_Nil_conv)
    next
      case (Cons e' earlier)
      with False nc show ?thesis
        by (simp add: pending_spec_def pending_step_def Let_def split: option.splits)
    qed
  qed
qed

lemma inbound_events_snoc:
  "inbound_events (steps @ [st]) =
     inbound_events steps @ (case st of Inbound (Stream_event e) \<Rightarrow> [e] | _ \<Rightarrow> [])"
  by (induction steps rule: inbound_events.induct)
     (auto split: step.splits sdk_message.splits)

lemma pendingToolUse_session_step:
  "pendingToolUse (session_step th h s st) =
     (case st of Inbound (Stream_event e) \<Rightarrow> pending_step e (pendingToolUse s)
      | _ \<Rightarrow> pendingToolUse s)"
  by (cases st)
     (auto simp: handleMessage_def pendingToolUse_handleStreamEvent Let_def finishStreaming_def
        requestRender_def split: sdk_message.splits)

lemma pendingToolUse_session_state:
  "pendingToolUse (session_state th h steps) = pending_spec (inbound_events steps)"
proof (induction steps rule: rev_induct)
  case Nil
  show ?case by (simp add: session_state_def new_TUIApp_def pending_spec_def)
next
  case (snoc st steps)
  have "session_state th h (steps @ [st]) = session_step th h (session_state th h steps) st"
    by (simp add: session_state_def)
  with snoc show ?case
    by (simp add: pendingToolUse_session_step inbound_events_snoc pending_spec_snoc
        split: step.splits sdk_message.splits)
qed

text \<open>
  Claim C10. At most one tool-input accumulator is pending at any time (the field holds
  one accumulator or none): after any session it is the one opened by the most recent
  content-start of kind tool-use that the decoder accepted and not yet closed by a
  content-stop, holding the fragments received since. An input-json-delta that arrives
  while no accumulator is pending is discarded: the state, with its records, its
  accumulator and its transcript, is unchanged, and nothing is raised.
\<close>

theorem C10_pending_accumulator:
  "pendingToolUse (session_state th h steps) = pending_spec (inbound_events steps)
   \<and> (pendingToolUse s = None \<longrightarrow>
        handleStreamEvent th h
          \<lparr>event_type = ''content_block_delta'', event_content_block = b,
           event_delta = Some \<lparr>delta_type = ''input_json_delta'', delta_text = t, partial_json = j\<rparr>\<rparr>
          s = s)"
  by (simp add: pendingToolUse_session_state handleStreamEvent_def)

theorem C10_pending_accumulator_witness:
  "(let s = session_state plain_theme int_host
              [Inbound (Stream_event (contentBlockStart_toolUse (Some ''t1'') (Some ''Read''))),
               Inbound (Stream_event contentBlockStop)]
    in pendingToolUse s = None
       \<and> handleStreamEvent plain_theme int_host (inputJsonDelta ''{}'') s = s)
   \<and> pendingToolUse
        (session_state plain_theme int_host
           [Inbound (Stream_event (contentBlockStart_toolUse (Some ''t1'') (Some ''Read''))),
            Inbound (Stream_event (inputJsonDelta ''{''))]) =
      Some \<lparr>pending_id = ''t1'', pending_name = ''Read'', inputJson = ''{''\<rparr>"
proof -
  have p: "pendingToolUse (session_state plain_theme int_host
              [Inbound (Stream_event (contentBlockStart_toolUse (Some ''t1'') (Some ''Read''))),
               Inbound (Stream_event contentBlockStop)]) = None"
    by code_simp
  have q: "pending_spec (inbound_events
           [Inbound (Stream_event (contentBlockStart_toolUse (Some ''t1'') (Some ''Read''))),
            Inbound (Stream_event (inputJsonDelta ''{'')) :: int step]) =
      Some \<lparr>pending_id = ''t1'', pending_name = ''Read'', inputJson = ''{''\<rparr>"
    by code_simp
  show ?thesis
    using p q
      C10_pending_accumulator [where th = plain_theme and h = int_host
        and s = "session_state plain_theme int_host
              [Inbound (Stream_event (contentBlockStart_toolUse (Some ''t1'') (Some ''Read''))),
               Inbound (Stream_event contentBlockStop)]"
        and b = None and t = None and j = "Some ''{}''"
        and steps = "[Inbound (Stream_event (contentBlockStart_toolUse (Some ''t1'') (Some ''Read''))),
            Inbound (Stream_event (inputJsonDelta ''{''))]"]
    by (simp add: inputJsonDelta_def Let_def)
qed

subsection \<open>Finalized tool records\<close>

lemma nth_on_streaming_tool:
  "cs ! r = ToolExecution t \<Longrightarrow> on_streaming f x cs ! r = ToolExecution t"
  by (cases "cs ! x"; cases "x = r") (simp_all add: on_streaming_def)

lemma nth_loader_stop_tool:
  "cs ! r = ToolExecution t \<Longrightarrow> loader_stop x cs ! r = ToolExecution t"
  by (cases "cs ! x"; cases "x = r") (simp_all add: loader_stop_def)

lemma nth_on_tool_other: "x \<noteq> r \<Longrightarrow> on_tool f x cs ! r = cs ! r"
  by (cases "cs ! x") (simp_all add: on_tool_def)

lemma keeps_tool_addChild: "keeps_tool r t s \<Longrightarrow> keeps_tool r t (addChild c s)"
  by (simp add: keeps_tool_def addChild_def nth_append)

lemma keeps_tool_requestRender [simp]: "keeps_tool r t (requestRender s) = keeps_tool r t s"
  by (simp add: keeps_tool_def requestRender_def)

lemma keeps_tool_stopLoading: "keeps_tool r t s \<Longrightarrow> keeps_tool r t (stopLoading s)"
  by (simp add: keeps_tool_def stopLoading_def nth_loader_stop_tool split: option.splits)

lemma keeps_tool_startLoading: "keeps_tool r t s \<Longrightarrow> keeps_tool r t (startLoading s)"
  by (simp add: keeps_tool_def startLoading_def addChild_def nth_append split: option.splits)

lemma keeps_tool_addMessage: "keeps_tool r t s \<Longrightarrow> keeps_tool r t (addMessage x s)"
  by (simp add: addMessage_def keeps_tool_addChild)

lemma keeps_tool_startStreaming: "keeps_tool r t s \<Longrightarrow> keeps_tool r t (startStreaming s)"
  using keeps_tool_stopLoading [of r t s]
  by (simp add: keeps_tool_def startStreaming_def Let_def addChild_def nth_append)

lemma keeps_tool_appendStreamingText:
  assumes "keeps_tool r t s"
  shows "keeps_tool r t (appendStreamingText x s)"
proof -
  have "keeps_tool r t (requestRender (s'\<lparr>components := on_streaming f c (components s')\<rparr>))"
    if "keeps_tool r t s'" for s' :: "'a tui_app" and f c
    using that by (simp add: keeps_tool_def requestRender_def nth_on_streaming_tool)
  with assms keeps_tool_startStreaming [OF assms] show ?thesis
    by (simp add: appendStreamingText_def Let_def split: option.splits)
qed

lemma not_running_not_active:
  assumes "tools_inv s" "keeps_tool r t s" "status t \<noteq> Running"
  shows "r \<notin> snd ` set (activeTools s)"
proof
  assume "r \<in> snd ` set (activeTools s)"
  then have "r \<in> set (map snd (activeTools s))" by simp
  with assms(1) have "r \<in> set (running_refs (components s))"
    by (simp add: tools_inv_def)
  then have "is_running (components s ! r)"
    by (simp add: running_refs_def)
  with assms(2,3) show False
    by (simp add: keeps_tool_def is_running_def)
qed

lemma keeps_tool_markAllToolsDone:
  assumes "tools_inv s" "keeps_tool r t s" "status t \<noteq> Running"
  shows "keeps_tool r t (markAllToolsDone th h s)"
proof -
  from assms(2,3) have "close_running th h (components s ! r) = ToolExecution t"
    by (simp add: keeps_tool_def close_running_def)
  with assms(2) markAllToolsDone_components [OF assms(1), of th h] show ?thesis
    by (simp add: keeps_tool_def)
qed

lemma keeps_tool_showToolComplete:
  assumes "tools_inv s" "keeps_tool r t s" "status t \<noteq> Running"
  shows "keeps_tool r t (showToolComplete th h i e s)"
proof (cases "map_of (activeTools s) i")
  case None
  with assms(2) show ?thesis by (simp add: showToolComplete_def)
next
  case (Some x)
  then have "x \<in> snd ` set (activeTools s)"
    by (force dest: map_of_SomeD)
  with not_running_not_active [OF assms] have "x \<noteq> r" by auto
  with Some assms(2) show ?thesis
    by (simp add: showToolComplete_def keeps_tool_def requestRender_def nth_on_tool_other)
qed

lemma keeps_tool_showToolStart: "keeps_tool r t s \<Longrightarrow> keeps_tool r t (showToolStart th h i n x s)"
  by (simp add: keeps_tool_def showToolStart_fields nth_append)

lemma keeps_tool_pending [simp]: "keeps_tool r t (s\<lparr>pendingToolUse := p\<rparr>) = keeps_tool r t s"
  by (simp add: keeps_tool_def)

lemma keeps_tool_handleStreamEvent:
  assumes "tools_inv s" "keeps_tool r t s" "status t \<noteq> Running"
  shows "keeps_tool r t (handleStreamEvent th h ev s)"
proof -
  note m = keeps_tool_markAllToolsDone [OF assms, of th h]
  have start_text: "keeps_tool r t (startStreaming (markAllToolsDone th h s))"
    using m by (rule keeps_tool_startStreaming)
  have start_tool: "keeps_tool r t (showToolStart th h i name None (markAllToolsDone th h s))" for i name
    using m by (rule keeps_tool_showToolStart)
  have delta: "keeps_tool r t (appendStreamingText x s)" for x
    using assms(2) by (rule keeps_tool_appendStreamingText)
  have stop: "keeps_tool r t (requestRender (s\<lparr>components := on_tool f x (components s)\<rparr>))"
    if "map_of (activeTools s) i = Some x" for f x i
  proof -
    from that have "x \<in> snd ` set (activeTools s)"
      by (force dest: map_of_SomeD)
    with not_running_not_active [OF assms] have "x \<noteq> r" by auto
    with assms(2) show ?thesis
      by (simp add: keeps_tool_def requestRender_def nth_on_tool_other)
  qed
  have ld: "keeps_tool r t (stopLoading s)"
    using assms(2) by (rule keeps_tool_stopLoading)
  show ?thesis
    unfolding handleStreamEvent_def Let_def
    using assms(2) start_text start_tool delta stop ld
    by (simp split: option.splits)
qed

lemma keeps_tool_handleMessage:
  assumes "tools_inv s" "keeps_tool r t s" "status t \<noteq> Running"
  shows "keeps_tool r t (handleMessage th h m s)"
proof (cases m)
  case (System_message subtype sid)
  with assms(2) show ?thesis
    by (simp add: handleMessage_def Let_def keeps_tool_def)
next
  case (Stream_event ev)
  with assms show ?thesis
    by (simp add: handleMessage_def keeps_tool_handleStreamEvent)
next
  case Assistant_message
  with assms(2) show ?thesis
    by (simp add: handleMessage_def finishStreaming_def keeps_tool_def)
next
  case (Tool_progress i p e)
  with assms show ?thesis
    by (simp add: handleMessage_def keeps_tool_showToolComplete)
next
  case (Result_message c d)
  have "keeps_tool r t (addMessage x ((stopLoading s)\<lparr>totalCost := y\<rparr>))" for x y
  proof -
    from assms(2) have "keeps_tool r t (stopLoading s)" by (rule keeps_tool_stopLoading)
    then have "keeps_tool r t ((stopLoading s)\<lparr>totalCost := y\<rparr>)" by (simp add: keeps_tool_def)
    then show ?thesis by (rule keeps_tool_addMessage)
  qed
  with Result_message show ?thesis
    by (simp add: handleMessage_def Let_def)
next
  case Other_message
  with assms(2) show ?thesis
    by (simp add: handleMessage_def)
qed

lemma keeps_tool_handleSubmit:
  assumes "keeps_tool r t s"
  shows "keeps_tool r t (handleSubmit th x s)"
proof -
  have a: "keeps_tool r t (addMessage y s)" for y
    using assms by (rule keeps_tool_addMessage)
  then have b: "keeps_tool r t (startLoading (addMessage y s))" for y
    by (rule keeps_tool_startLoading)
  have c: "keeps_tool r t (stop s)"
    using assms by (simp add: keeps_tool_def stop_def)
  have d: "keeps_tool r t (s'\<lparr>messageQueue := q\<rparr>) = keeps_tool r t s'" for s' :: "'a tui_app" and q
    by (simp add: keeps_tool_def)
  from assms a b c d show ?thesis
    by (simp add: handleSubmit_def Let_def)
qed

lemma keeps_tool_session_step:
  assumes "tools_inv s" "keeps_tool r t s" "status t \<noteq> Running"
  shows "keeps_tool r t (session_step th h s st)"
proof (cases st)
  case (Inbound m)
  with assms show ?thesis by (simp add: keeps_tool_handleMessage)
next
  case (Submit x)
  with assms(2) show ?thesis by (simp add: keeps_tool_handleSubmit)
next
  case Pull
  with assms(2) show ?thesis by (simp add: keeps_tool_def)
qed

lemma finalized_tool_stable:
  assumes "tools_inv s" "keeps_tool r t s" "status t \<noteq> Running"
  shows "tools_inv (foldl (session_step th h) s steps)
       \<and> keeps_tool r t (foldl (session_step th h) s steps)"
proof (induction steps rule: rev_induct)
  case Nil
  from assms show ?case by simp
next
  case (snoc st steps)
  then show ?case
    using assms(3) by (simp add: tools_inv_session_step keeps_tool_session_step)
qed

lemma map_of_delete_same [simp]: "map_of (AList.delete k al) k = None"
  by (simp add: AList.delete_conv')

lemma showToolComplete_unknown:
  "map_of (activeTools s) i = None \<Longrightarrow> showToolComplete th h i e s = s"
  by (simp add: showToolComplete_def)

lemma activeTools_showToolComplete:
  "activeTools (showToolComplete th h i e s) = AList.delete i (activeTools s)"
proof (cases "map_of (activeTools s) i")
  case None
  then have "i \<notin> fst ` set (activeTools s)"
    by (simp add: map_of_eq_None_iff)
  then have "AList.delete i (activeTools s) = activeTools s"
    by (rule AList.delete_id)
  with None show ?thesis
    by (simp add: showToolComplete_def)
next
  case (Some r)
  then show ?thesis
    by (simp add: showToolComplete_def requestRender_def)
qed

lemma showToolComplete_twice:
  "showToolComplete th h i e2 (showToolComplete th h i e1 s) = showToolComplete th h i e1 s"
  by (rule showToolComplete_unknown) (simp add: activeTools_showToolComplete)

lemma showToolComplete_after_closure:
  "showToolComplete th h i e (markAllToolsDone th h s) = markAllToolsDone th h s"
  by (rule showToolComplete_unknown) simp

lemma tool_progress_twice:
  "handleMessage th h (Tool_progress (Some i) (Some ''done'') b2)
     (handleMessage th h (Tool_progress (Some i) (Some ''done'') b1) s) =
   handleMessage th h (Tool_progress (Some i) (Some ''done'') b1) s"
  by (simp add: handleMessage_def showToolComplete_twice)

lemma active_ref_running:
  assumes "tools_inv s" "map_of (activeTools s) i = Some r"
  shows "r < length (components s)" "\<exists>t. components s ! r = ToolExecution t"
proof -
  from assms(2) have "r \<in> set (map snd (activeTools s))"
    by (force dest: map_of_SomeD)
  with assms(1) have "r \<in> set (running_refs (components s))"
    by (simp add: tools_inv_def)
  then show "r < length (components s)" "\<exists>t. components s ! r = ToolExecution t"
    by (auto simp: running_refs_def is_running_def split: component.splits)
qed

lemma first_completion_final:
  assumes "tools_inv s" "map_of (activeTools s) i = Some r"
  shows "tool_statuses (components (showToolComplete th h i e s)) ! r =
           Some (if e then Error else Done)
       \<and> components (foldl (session_step th h) (showToolComplete th h i e s) steps) ! r =
           components (showToolComplete th h i e s) ! r"
proof -
  let ?st = "if e then Error else Done"
  let ?s1 = "showToolComplete th h i e s"
  from active_ref_running [OF assms] obtain t where
    r: "r < length (components s)" and t: "components s ! r = ToolExecution t"
    by auto
  from assms(2) r t have k: "keeps_tool r (setStatus th h ?st t) ?s1"
    by (simp add: showToolComplete_def keeps_tool_def requestRender_def on_tool_def)
  have st: "status (setStatus th h ?st t) \<noteq> Running"
    by simp
  have inv: "tools_inv ?s1"
    using assms(1) by (rule tools_inv_showToolComplete)
  from finalized_tool_stable [OF inv k st, of th h steps]
  have "keeps_tool r (setStatus th h ?st t) (foldl (session_step th h) ?s1 steps)"
    by (rule conjunct2)
  with k show ?thesis
    by (simp add: keeps_tool_def tool_statuses_def)
qed

lemma status_new_ToolExecution [simp]: "status (new_ToolExecution th h name input st) = st"
  by (simp add: new_ToolExecution_def updateLines_def Let_def)

text \<open>
  Claim C5. Tool completion is idempotent and total over identifiers: completing an id
  that is unknown or already finalized is a no-op, also after the defensive bulk closure
  and when the completion arrives twice as tool progress. In a session the first
  completion for an active id sets the final state of its record (error or done), and
  whatever is processed afterwards (a later completion for the same id, a content-stop,
  any other step) leaves that record as it is.
\<close>

theorem C5_completion_idempotent:
  "showToolComplete th h i e2 (showToolComplete th h i e1 s) = showToolComplete th h i e1 s
   \<and> (map_of (activeTools s) i = None \<longrightarrow> showToolComplete th h i e s = s)
   \<and> showToolComplete th h i e (markAllToolsDone th h s) = markAllToolsDone th h s
   \<and> handleMessage th h (Tool_progress (Some i) (Some ''done'') b2)
        (handleMessage th h (Tool_progress (Some i) (Some ''done'') b1) s) =
      handleMessage th h (Tool_progress (Some i) (Some ''done'') b1) s
   \<and> (let s0 = session_state th h steps;
           s1 = showToolComplete th h i e s0;
           s2 = foldl (session_step th h) s1 steps'
       in (case map_of (activeTools s0) i of
             None \<Rightarrow> s1 = s0
           | Some r \<Rightarrow>
               tool_statuses (components s1) ! r = Some (if e then Error else Done)
               \<and> components s2 ! r = components s1 ! r))"
proof -
  let ?s0 = "session_state th h steps"
  have inv: "tools_inv ?s0"
    by (rule tools_inv_session_state)
  have last: "case map_of (activeTools ?s0) i of
             None \<Rightarrow> showToolComplete th h i e ?s0 = ?s0
           | Some r \<Rightarrow>
               tool_statuses (components (showToolComplete th h i e ?s0)) ! r =
                 Some (if e then Error else Done)
               \<and> components (foldl (session_step th h) (showToolComplete th h i e ?s0) steps') ! r =
                   components (showToolComplete th h i e ?s0) ! r"
  proof (cases "map_of (activeTools ?s0) i")
    case None
    then show ?thesis by (simp add: showToolComplete_unknown)
  next
    case (Some r)
    with first_completion_final [OF inv Some, of th h e steps'] show ?thesis
      by simp
  qed
  have a: "showToolComplete th h i e2 (showToolComplete th h i e1 s) = showToolComplete th h i e1 s"
    by (rule showToolComplete_twice)
  have b: "map_of (activeTools s) i = None \<longrightarrow> showToolComplete th h i e s = s"
    by (simp add: showToolComplete_unknown)
  have c: "showToolComplete th h i e (markAllToolsDone th h s) = markAllToolsDone th h s"
    by (rule showToolComplete_after_closure)
  have d: "handleMessage th h (Tool_progress (Some i) (Some ''done'') b2)
        (handleMessage th h (Tool_progress (Some i) (Some ''done'') b1) s) =
      handleMessage th h (Tool_progress (Some i) (Some ''done'') b1) s"
    by (rule tool_progress_twice)
  from a b c d last show ?thesis
    unfolding Let_def by (intro conjI)qed

theorem C5_completion_idempotent_witness:
  "map_of (activeTools (new_TUIApp int_host)) ''t1'' = None
   \<and> showToolComplete plain_theme int_host ''t1'' False (new_TUIApp int_host) = new_TUIApp int_host
   \<and> (let s0 = session_state plain_theme int_host
                 [Inbound (Stream_event (contentBlockStart_toolUse (Some ''t1'') (Some ''Read'')))];
           s1 = showToolComplete plain_theme int_host ''t1'' True s0;
           s2 = foldl (session_step plain_theme int_host) s1
                  [Inbound (Tool_progress (Some ''t1'') (Some ''done'') (Some False)),
                   Inbound (Stream_event contentBlockStop)]
       in map_of (activeTools s0) ''t1'' = Some 0
          \<and> tool_statuses (components s0) = [Some Running]
          \<and> tool_statuses (components s1) = [Some Error]
          \<and> tool_statuses (components s2) = [Some Error])"
proof -
  have a: "map_of (activeTools (new_TUIApp int_host)) ''t1'' = None"
    by (simp add: new_TUIApp_def)
  have b: "let s0 = session_state plain_theme int_host
                 [Inbound (Stream_event (contentBlockStart_toolUse (Some ''t1'') (Some ''Read'')))];
           s1 = showToolComplete plain_theme int_host ''t1'' True s0;
           s2 = foldl (session_step plain_theme int_host) s1
                  [Inbound (Tool_progress (Some ''t1'') (Some ''done'') (Some False)),
                   Inbound (Stream_event contentBlockStop)]
       in map_of (activeTools s0) ''t1'' = Some 0
          \<and> tool_statuses (components s0) = [Some Running]
          \<and> tool_statuses (components s1) = [Some Error]
          \<and> tool_statuses (components s2) = [Some Error]"
    by code_simp
  from a b show ?thesis
    using C5_completion_idempotent [where th = plain_theme and h = int_host and i = "''t1''"
        and s = "new_TUIApp int_host" and e = False]
    by simp
qed

text \<open>
  Claim C4, as the claim states it, fails: starting a tool invocation whose identifier is
  in the active set appends a second record to the transcript and puts it in the active
  set in place of the first; through the decoder the first record is also marked done.
\<close>

theorem C4_duplicate_start_is_not_a_noop:
  "let s1 = session_state plain_theme int_host
              [Inbound (Stream_event (contentBlockStart_toolUse (Some ''t1'') (Some ''Read'')))];
       s2 = handleMessage plain_theme int_host
              (Stream_event (contentBlockStart_toolUse (Some ''t1'') (Some ''Read''))) s1;
       s3 = showToolStart plain_theme int_host ''t1'' ''Read'' None s1
   in map_of (activeTools s1) ''t1'' = Some 0
      \<and> messagesContainer s1 = [0] \<and> tool_statuses (components s1) = [Some Running]
      \<and> messagesContainer s2 = [0, 1] \<and> tool_statuses (components s2) = [Some Done, Some Running]
      \<and> activeTools s2 = [(''t1'', 1)]
      \<and> messagesContainer s3 = [0, 1] \<and> tool_statuses (components s3) = [Some Running, Some Running]
      \<and> activeTools s3 = [(''t1'', 1)]"
  by code_simp

lemma duplicate_start:
  assumes "map_of (activeTools (session_state th h steps)) i = Some r0" "i \<noteq> []" "name \<noteq> []"
  shows "let s = session_state th h steps;
             r = length (components s);
             s' = handleStreamEvent th h (contentBlockStart_toolUse (Some i) (Some name)) s
         in tool_statuses (components s) ! r0 = Some Running
            \<and> tool_statuses (components s') ! r0 = Some Done
            \<and> components s' ! r = ToolExecution (new_ToolExecution th h name None Running)
            \<and> messagesContainer s' = messagesContainer s @ [r]
            \<and> activeTools s' = [(i, r)]
            \<and> r0 < r"
proof -
  let ?s = "session_state th h steps"
  have inv: "tools_inv ?s"
    by (rule tools_inv_session_state)
  from assms(1) have "r0 \<in> set (map snd (activeTools ?s))"
    by (force dest: map_of_SomeD)
  with inv have "r0 \<in> set (running_refs (components ?s))"
    by (simp add: tools_inv_def)
  then have r0: "r0 < length (components ?s)" and run: "is_running (components ?s ! r0)"
    by (simp_all add: running_refs_def)
  from run obtain t where t: "components ?s ! r0 = ToolExecution t" "status t = Running"
    by (auto simp: is_running_def split: component.splits)
  note m = markAllToolsDone_components [OF inv, of th h]
  note e = contentBlockStart_toolUse_eq [OF assms(2,3), of th h ?s]
  from r0 t have a: "tool_statuses (components ?s) ! r0 = Some Running"
    by (simp add: tool_statuses_def)
  from r0 t m have b: "tool_statuses (components (markAllToolsDone th h ?s)) ! r0 = Some Done"
    by (simp add: tool_statuses_def close_running_def)
  from r0 have c: "tool_statuses (components (markAllToolsDone th h ?s) @ [x]) ! r0 =
      tool_statuses (components (markAllToolsDone th h ?s)) ! r0" for x
    by (simp add: tool_statuses_def nth_append)
  have d: "(components (markAllToolsDone th h ?s) @ [x]) ! length (components ?s) = x" for x
    using nth_append_length [of "components (markAllToolsDone th h ?s)" x] by simp
  from a b c d r0 show ?thesis
    unfolding Let_def e by (simp add: showToolStart_fields)
qed

text \<open>
  Claim C4, amended. Starting a tool invocation with an identifier that is already
  present in the active set raises no error, but it is not a no-op. The decoder first
  marks the existing record done (the bulk closure) and removes it from the active set,
  then appends a new record in state running to the transcript, which becomes the only
  member of the active set. \<open>showToolStart\<close> by itself appends the new record to the
  transcript and makes it the record of that identifier in the active set, the existing
  record staying in the transcript.
\<close>

theorem C4_start_always_creates_a_record:
  assumes "map_of (activeTools (session_state th h steps)) i = Some r0" "i \<noteq> []" "name \<noteq> []"
  shows "let s = session_state th h steps;
             r = length (components s);
             s' = handleStreamEvent th h (contentBlockStart_toolUse (Some i) (Some name)) s;
             s'' = showToolStart th h i name None s
         in tool_statuses (components s) ! r0 = Some Running
            \<and> tool_statuses (components s') ! r0 = Some Done
            \<and> components s' ! r = ToolExecution (new_ToolExecution th h name None Running)
            \<and> messagesContainer s' = messagesContainer s @ [r]
            \<and> activeTools s' = [(i, r)]
            \<and> r0 < r
            \<and> components s'' =
                components s @ [ToolExecution (new_ToolExecution th h name None Running)]
            \<and> messagesContainer s'' = messagesContainer s @ [r]
            \<and> map_of (activeTools s'') i = Some r
            \<and> map fst (activeTools s'') = map fst (activeTools s)"
proof -
  let ?s = "session_state th h steps"
  from assms(1) have "i \<in> fst ` set (activeTools ?s)"
    by (force dest: map_of_SomeD)
  then have k: "map fst (AList.update i (length (components ?s)) (activeTools ?s)) =
      map fst (activeTools ?s)"
    by (simp add: AList.update_keys)
  from duplicate_start [OF assms] k show ?thesis
    by (simp add: Let_def showToolStart_fields AList.update_conv')
qed

theorem C4_start_always_creates_a_record_witness:
  "map_of (activeTools (session_state plain_theme int_host
       [Inbound (Stream_event (contentBlockStart_toolUse (Some ''t1'') (Some ''Read'')))])) ''t1'' =
     Some 0
   \<and> ''t1'' \<noteq> [] \<and> ''Read'' \<noteq> []
   \<and> (let s = session_state plain_theme int_host
                [Inbound (Stream_event (contentBlockStart_toolUse (Some ''t1'') (Some ''Read'')))];
           s' = handleStreamEvent plain_theme int_host
                  (contentBlockStart_toolUse (Some ''t1'') (Some ''Read'')) s
       in tool_statuses (components s) ! 0 = Some Running
          \<and> tool_statuses (components s') ! 0 = Some Done
          \<and> messagesContainer s' = messagesContainer s @ [1]
          \<and> activeTools s' = [(''t1'', 1)])"
proof -
  have a: "map_of (activeTools (session_state plain_theme int_host
       [Inbound (Stream_event (contentBlockStart_toolUse (Some ''t1'') (Some ''Read'')))])) ''t1'' =
     Some 0"
    by code_simp
  have l: "length (components (session_state plain_theme int_host
       [Inbound (Stream_event (contentBlockStart_toolUse (Some ''t1'') (Some ''Read'')))])) = 1"
    by code_simp
  from C4_start_always_creates_a_record [OF a, of "''Read''"] a l show ?thesis
    by (simp add: Let_def)
qed

subsection \<open>Tool input at content-stop\<close>

lemmas decoder_defs =
  handleMessages_def handleMessage_def handleStreamEvent_def contentBlockStart_toolUse_def
  contentBlockStart_text_def inputJsonDelta_def contentBlockStop_def textDelta_def
  new_TUIApp_def markAllToolsDone_def showToolStart_def showToolComplete_def requestRender_def
  addChild_def new_ToolExecution_def updateLines_def setInput_def setStatus_def on_tool_def
  formatToolInput_def field_text_def TOOL_ICONS_def startStreaming_def stopLoading_def
  new_StreamingText_def Let_def

text \<open>
  Claim C3, as the claim states it, fails: after the content-stop the record of \<open>t1\<close> is
  still in state running and still in the active set. The content-stop parses the
  accumulated input and shows it; it does not change the lifecycle state.
\<close>

theorem C3_record_still_running:
  \<open>let s = handleMessages plain_theme int_host (new_TUIApp int_host)
             (map Stream_event
                [contentBlockStart_toolUse (Some ''t1'') (Some ''Read''),
                 inputJsonDelta ''{"file_'', inputJsonDelta ''path":"a.ts"}'',
                 contentBlockStop])
   in tool_statuses (components s) = [Some Running] \<and> activeTools s = [(''t1'', 0)]\<close>
  by code_simp

text \<open>
  Claim C3, amended. Processing the event sequence contentBlockStart(toolUse, id=t1,
  name="Read"), inputJsonDelta of the two halves of \<open>{"file_path":"a.ts"}\<close>,
  contentBlockStop on a new application yields exactly one tool invocation record, for
  \<open>t1\<close>, with parsed input \<open>{file_path: "a.ts"}\<close>, displayed as \<open>Read: a.ts\<close>, whose
  lifecycle state after the content-stop is still running: the content-stop parses the
  accumulated input and updates the display, and leaves the state and the active set as
  they are. The theorem also says what three later events do to the record: a
  content-start of kind text marks it done, a tool progress message for \<open>t1\<close> marks it
  done or error, and a content-start of another kind, such as thinking, leaves it
  running.
\<close>

theorem C3_tool_scenario:
  assumes \<open>JSON_parse h ''{"file_path":"a.ts"}'' = Some (JObject [(''file_path'', JString ''a.ts'')])\<close>
  shows \<open>let s = handleMessages th h (new_TUIApp h)
                   (map Stream_event
                      [contentBlockStart_toolUse (Some ''t1'') (Some ''Read''),
                       inputJsonDelta ''{"file_'', inputJsonDelta ''path":"a.ts"}'',
                       contentBlockStop])
         in components s = [ToolExecution (read_record th Running)]
            \<and> messagesContainer s = [0]
            \<and> activeTools s = [(''t1'', 0)]
            \<and> pendingToolUse s = None
            \<and> components (handleMessage th h (Stream_event contentBlockStart_text) s) ! 0 =
                ToolExecution (read_record th Done)
            \<and> components (handleMessage th h (Tool_progress (Some ''t1'') (Some ''done'') None) s) =
                [ToolExecution (read_record th Done)]
            \<and> components (handleMessage th h (Tool_progress (Some ''t1'') (Some ''done'') (Some True)) s) =
                [ToolExecution (read_record th Error)]
            \<and> handleMessage th h
                 (Stream_event
                    \<lparr>event_type = ''content_block_start'',
                     event_content_block =
                       Some \<lparr>block_type = ''thinking'', block_id = None, block_name = None\<rparr>,
                     event_delta = None\<rparr>) s = s\<close>
  using assms
  by (simp add: decoder_defs read_record_def)

theorem C3_tool_scenario_witness:
  \<open>JSON_parse int_host ''{"file_path":"a.ts"}'' = Some (JObject [(''file_path'', JString ''a.ts'')])
   \<and> components
        (handleMessages plain_theme int_host (new_TUIApp int_host)
           (map Stream_event
              [contentBlockStart_toolUse (Some ''t1'') (Some ''Read''),
               inputJsonDelta ''{"file_'', inputJsonDelta ''path":"a.ts"}'',
               contentBlockStop])) =
      [ToolExecution
         \<lparr>toolName = ''Read'',
          tool_input = Some (JObject [(''file_path'', JString ''a.ts'')]),
          status = Running,
          lines =
            [[CHR 0xE2, CHR 0x9F, CHR 0xB3] @ '' '' @ [CHR 0xF0, CHR 0x9F, CHR 0x93, CHR 0x96]
             @ '' Read: a.ts'']\<rparr>]\<close>
proof -
  have p: \<open>JSON_parse int_host ''{"file_path":"a.ts"}'' =
      Some (JObject [(''file_path'', JString ''a.ts'')])\<close>
    by code_simp
  from C3_tool_scenario [OF p, of plain_theme] p show ?thesis
    by (simp add: Let_def read_record_def getColor_def getStatusIcon_def plain_theme_def)
qed

lemma inputJsonDeltas_run:
  assumes "pendingToolUse s = Some p"
  shows "foldl (\<lambda>s j. handleStreamEvent th h (inputJsonDelta j) s) s js =
     s\<lparr>pendingToolUse := Some (p\<lparr>inputJson := inputJson p @ concat js\<rparr>)\<rparr>"
  using assms
proof (induction js arbitrary: s p)
  case Nil
  then show ?case by simp
next
  case (Cons j js)
  have step: "handleStreamEvent th h (inputJsonDelta j) s =
      s\<lparr>pendingToolUse := Some (p\<lparr>inputJson := inputJson p @ j\<rparr>)\<rparr>"
    using Cons.prems by (cases "j = []") (simp_all add: handleStreamEvent_def inputJsonDelta_def)
  have "pendingToolUse (s\<lparr>pendingToolUse := Some (p\<lparr>inputJson := inputJson p @ j\<rparr>)\<rparr>) =
      Some (p\<lparr>inputJson := inputJson p @ j\<rparr>)"
    by simp
  from Cons.IH [OF this] step show ?case
    by simp
qed

lemma handleMessages_append:
  "handleMessages th h s (ms @ ms') = handleMessages th h (handleMessages th h s ms) ms'"
  by (simp add: handleMessages_def)

lemma handleMessages_events:
  "handleMessages th h s (map Stream_event evs) = foldl (\<lambda>s e. handleStreamEvent th h e s) s evs"
  by (induction evs arbitrary: s) (simp_all add: handleMessages_def handleMessage_def)

lemma updateLines_idem [simp]: "updateLines th h (updateLines th h t) = updateLines th h t"
  by (simp add: updateLines_def Let_def cong: option.case_cong)

lemma setInput_None_new [simp]:
  "setInput th h None (new_ToolExecution th h name None st) = new_ToolExecution th h name None st"
  by (simp add: setInput_def new_ToolExecution_def updateLines_def Let_def cong: option.case_cong)

lemma setStatus_new [simp]:
  "setStatus th h st' (new_ToolExecution th h name input st) = new_ToolExecution th h name input st'"
  by (simp add: setStatus_def new_ToolExecution_def updateLines_def Let_def cong: option.case_cong)

lemma on_tool_last:
  "on_tool f (length cs) (cs @ [ToolExecution t]) = cs @ [ToolExecution (f t)]"
  by (simp add: on_tool_def)

text \<open>
  Claim C6, as the claim states it, fails in one point: the content-stop does not
  finalize the record. With a malformed input the record is still in state running and
  still in the active set after the content-stop.
\<close>

theorem C6_record_not_finalized:
  \<open>let s = handleMessages plain_theme int_host (new_TUIApp int_host)
             (map Stream_event
                [contentBlockStart_toolUse (Some ''t1'') (Some ''Read''),
                 inputJsonDelta ''{"file_'', contentBlockStop])
   in JSON_parse int_host ''{"file_'' = None
      \<and> tool_statuses (components s) = [Some Running]
      \<and> activeTools s = [(''t1'', 0)]\<close>
  by code_simp

text \<open>
  Claim C6, amended. If the input accumulated for a tool invocation is not valid JSON
  when the content-stop event is processed, the parsed input of the record stays absent
  and the accumulator is closed; the content-stop does not finalize the record, which
  stays in state running in the active set, never in an error state. Nothing is raised,
  and the decoder goes on: the state reached is the state right after the tool start,
  with the accumulator closed and one more render requested, and the events that follow
  are processed from it. The theorem also says what two later events do to the record:
  a content-start of kind text, and a tool progress message for it, mark it done, still
  with an absent input.
\<close>

theorem C6_malformed_tool_input:
  assumes "bid \<noteq> []" "bname \<noteq> []" "JSON_parse h (concat js) = None"
  shows "let r = length (components s0);
             evs = map Stream_event
                     ([contentBlockStart_toolUse (Some bid) (Some bname)]
                      @ map inputJsonDelta js @ [contentBlockStop]);
             s = handleMessages th h s0 evs;
             record = new_ToolExecution th h bname None
         in components s = components (markAllToolsDone th h s0) @ [ToolExecution (record Running)]
            \<and> tool_input (record Running) = None
            \<and> status (record Running) = Running
            \<and> activeTools s = [(bid, r)]
            \<and> pendingToolUse s = None
            \<and> components (handleMessage th h (Stream_event contentBlockStart_text) s) ! r =
                ToolExecution (record Done)
            \<and> components (handleMessage th h (Tool_progress (Some bid) (Some ''done'') None) s) ! r =
                ToolExecution (record Done)
            \<and> tool_input (record Done) = None
            \<and> s = (requestRender (showToolStart th h bid bname None (markAllToolsDone th h s0)))
                    \<lparr>pendingToolUse := None\<rparr>
            \<and> (\<forall>ms. handleMessages th h s0 (evs @ ms) =
                   handleMessages th h
                     ((requestRender (showToolStart th h bid bname None (markAllToolsDone th h s0)))
                        \<lparr>pendingToolUse := None\<rparr>) ms)"
proof -
  let ?rec = "new_ToolExecution th h bname None"
  define m where "m = markAllToolsDone th h s0"
  define s1 where "s1 = handleStreamEvent th h (contentBlockStart_toolUse (Some bid) (Some bname)) s0"
  define s2 where "s2 = foldl (\<lambda>s j. handleStreamEvent th h (inputJsonDelta j) s) s1 js"
  define s3 where "s3 = handleStreamEvent th h contentBlockStop s2"
  have s1: "s1 = (showToolStart th h bid bname None m)
      \<lparr>pendingToolUse := Some \<lparr>pending_id = bid, pending_name = bname, inputJson = []\<rparr>\<rparr>"
    unfolding s1_def m_def using assms(1,2) by (rule contentBlockStart_toolUse_eq)
  then have p1: "pendingToolUse s1 = Some \<lparr>pending_id = bid, pending_name = bname, inputJson = []\<rparr>"
    by simp
  have s2: "s2 = s1\<lparr>pendingToolUse :=
      Some \<lparr>pending_id = bid, pending_name = bname, inputJson = concat js\<rparr>\<rparr>"
    unfolding s2_def using inputJsonDeltas_run [OF p1, of th h js] by simp
  have len: "length (components m) = length (components s0)"
    by (simp add: m_def)
  have f2: "pendingToolUse s2 = Some \<lparr>pending_id = bid, pending_name = bname, inputJson = concat js\<rparr>"
    "activeTools s2 = [(bid, length (components m))]"
    "components s2 = components m @ [ToolExecution (?rec Running)]"
    by (simp_all add: s2 s1 showToolStart_fields m_def)
  have s3: "s3 = (requestRender (s2\<lparr>components :=
      on_tool (setInput th h None) (length (components m)) (components s2)\<rparr>))\<lparr>pendingToolUse := None\<rparr>"
    unfolding s3_def using f2(1,2) assms(3)
    by (simp add: handleStreamEvent_def contentBlockStop_def Let_def)
  have s3c: "components s3 = components m @ [ToolExecution (?rec Running)]"
    by (simp add: s3 f2 on_tool_last requestRender_def)
  have s3a: "activeTools s3 = [(bid, length (components s0))]"
    and s3p: "pendingToolUse s3 = None"
    by (simp_all add: s3 f2 requestRender_def len)
  have run: "handleMessages th h s0
        (map Stream_event ([contentBlockStart_toolUse (Some bid) (Some bname)]
            @ map inputJsonDelta js @ [contentBlockStop])) = s3"
    unfolding handleMessages_events by (simp add: foldl_map s3_def s2_def s1_def)
  have nxt: "components (handleMessage th h (Stream_event contentBlockStart_text) s3)
        ! length (components s0) = ToolExecution (?rec Done)"
  proof -
    have "components (markAllToolsDone th h s3) =
        on_tool (setStatus th h Done) (length (components m)) (components m @ [ToolExecution (?rec Running)])"
      by (simp add: markAllToolsDone_def requestRender_def s3a s3c len [symmetric])
    then have "components (markAllToolsDone th h s3) = components m @ [ToolExecution (?rec Done)]"
      by (simp only: on_tool_last setStatus_new)
    then show ?thesis
      by (simp add: handleMessage_def contentBlockStart_text_eq startStreaming_fields
          stopLoading_def nth_append nth_loader_stop_tool len split: option.splits)
  qed
  have prg: "components (handleMessage th h (Tool_progress (Some bid) (Some ''done'') None) s3)
        ! length (components s0) = ToolExecution (?rec Done)"
  proof -
    have "components (showToolComplete th h bid False s3) =
        on_tool (setStatus th h Done) (length (components m)) (components m @ [ToolExecution (?rec Running)])"
      by (simp add: showToolComplete_def requestRender_def s3a s3c len [symmetric])
    then have "components (showToolComplete th h bid False s3) = components m @ [ToolExecution (?rec Done)]"
      by (simp only: on_tool_last setStatus_new)
    with assms(1) show ?thesis
      by (simp add: handleMessage_def len [symmetric])
  qed
  have inp: "tool_input (?rec st) = None" for st
    by (simp add: new_ToolExecution_def updateLines_def Let_def)
  have whole: "s3 = (requestRender (showToolStart th h bid bname None m))\<lparr>pendingToolUse := None\<rparr>"
  proof -
    have "on_tool (setInput th h None) (length (components m)) (components s2) = components s2"
      by (simp add: f2 on_tool_last)
    then show ?thesis
      by (simp add: s3 s2 s1 requestRender_def)
  qed
  have cont: "handleMessages th h s0
        (map Stream_event ([contentBlockStart_toolUse (Some bid) (Some bname)]
            @ map inputJsonDelta js @ [contentBlockStop]) @ ms) =
      handleMessages th h
        ((requestRender (showToolStart th h bid bname None m))\<lparr>pendingToolUse := None\<rparr>) ms" for ms
    unfolding handleMessages_append run whole ..
  from s3c s3a s3p nxt prg inp whole cont show ?thesis
    unfolding Let_def run m_def
    by simp
qed

theorem C6_malformed_tool_input_witness:
  \<open>''t1'' \<noteq> [] \<and> ''Read'' \<noteq> [] \<and> JSON_parse int_host (concat [''{"file_'', ''path'']) = None
   \<and> (let evs = map Stream_event
                    ([contentBlockStart_toolUse (Some ''t1'') (Some ''Read'')]
                     @ map inputJsonDelta [''{"file_'', ''path''] @ [contentBlockStop]);
            s = handleMessages plain_theme int_host (new_TUIApp int_host) evs;
            s' = handleMessages plain_theme int_host (new_TUIApp int_host)
                   (evs @ [Stream_event contentBlockStart_text, Stream_event (textDelta ''ok'')])
        in components s =
             [ToolExecution
                \<lparr>toolName = ''Read'', tool_input = None, status = Running,
                 lines =
                   [[CHR 0xE2, CHR 0x9F, CHR 0xB3] @ '' ''
                    @ [CHR 0xF0, CHR 0x9F, CHR 0x93, CHR 0x96] @ '' Read'']\<rparr>]
           \<and> pendingToolUse s = None
           \<and> components s' =
               [ToolExecution
                  \<lparr>toolName = ''Read'', tool_input = None, status = Done,
                   lines =
                     [[CHR 0xE2, CHR 0x9C, CHR 0x93] @ '' ''
                      @ [CHR 0xF0, CHR 0x9F, CHR 0x93, CHR 0x96] @ '' Read'']\<rparr>,
                StreamingText \<lparr>st_text = ''ok'', st_markdown = ''ok''\<rparr>])\<close>
proof -
  have a: "''t1'' \<noteq> []" "''Read'' \<noteq> []"
    by simp_all
  have p: \<open>JSON_parse int_host (concat [''{"file_'', ''path'']) = None\<close>
    by code_simp
  have r: \<open>new_ToolExecution plain_theme int_host ''Read'' None Running =
      \<lparr>toolName = ''Read'', tool_input = None, status = Running,
       lines = [[CHR 0xE2, CHR 0x9F, CHR 0xB3] @ '' ''
                @ [CHR 0xF0, CHR 0x9F, CHR 0x93, CHR 0x96] @ '' Read'']\<rparr>\<close>
    by code_simp
  have m: "components (markAllToolsDone plain_theme int_host (new_TUIApp int_host)) = []"
    by code_simp
  have c: \<open>components (handleMessages plain_theme int_host (new_TUIApp int_host)
        (map Stream_event
           ([contentBlockStart_toolUse (Some ''t1'') (Some ''Read'')]
            @ map inputJsonDelta [''{"file_'', ''path''] @ [contentBlockStop])
         @ [Stream_event contentBlockStart_text, Stream_event (textDelta ''ok'')])) =
      [ToolExecution
         \<lparr>toolName = ''Read'', tool_input = None, status = Done,
          lines = [[CHR 0xE2, CHR 0x9C, CHR 0x93] @ '' ''
                   @ [CHR 0xF0, CHR 0x9F, CHR 0x93, CHR 0x96] @ '' Read'']\<rparr>,
       StreamingText \<lparr>st_text = ''ok'', st_markdown = ''ok''\<rparr>]\<close>
    by code_simp
  note t = C6_malformed_tool_input [OF a p, of "new_TUIApp int_host" plain_theme, unfolded Let_def]
  from t have \<open>components (handleMessages plain_theme int_host (new_TUIApp int_host)
        (map Stream_event
           ([contentBlockStart_toolUse (Some ''t1'') (Some ''Read'')]
            @ map inputJsonDelta [''{"file_'', ''path''] @ [contentBlockStop]))) =
      components (markAllToolsDone plain_theme int_host (new_TUIApp int_host))
        @ [ToolExecution (new_ToolExecution plain_theme int_host ''Read'' None Running)]\<close>
    by (rule conjunct1)
  then have c1: \<open>components (handleMessages plain_theme int_host (new_TUIApp int_host)
        (map Stream_event
           ([contentBlockStart_toolUse (Some ''t1'') (Some ''Read'')]
            @ map inputJsonDelta [''{"file_'', ''path''] @ [contentBlockStop]))) =
      [ToolExecution
         \<lparr>toolName = ''Read'', tool_input = None, status = Running,
          lines = [[CHR 0xE2, CHR 0x9F, CHR 0xB3] @ '' ''
                   @ [CHR 0xF0, CHR 0x9F, CHR 0x93, CHR 0x96] @ '' Read'']\<rparr>]\<close>
    by (simp only: m r append_Nil)
  from t have c2: \<open>pendingToolUse (handleMessages plain_theme int_host (new_TUIApp int_host)
        (map Stream_event
           ([contentBlockStart_toolUse (Some ''t1'') (Some ''Read'')]
            @ map inputJsonDelta [''{"file_'', ''path''] @ [contentBlockStop]))) = None\<close>
    by blast
  from a p c1 c2 c show ?thesis
    unfolding Let_def by (intro conjI)
qed

section \<open>Properties of the session\<close>

lemma messageQueue_fields [simp]:
  "messageQueue (requestRender s) = messageQueue s"
  "messageQueue (addChild c s) = messageQueue s"
  "messageQueue (addMessage t s) = messageQueue s"
  "messageQueue (startLoading s) = messageQueue s"
  "messageQueue (stopLoading s) = messageQueue s"
  "messageQueue (startStreaming s) = messageQueue s"
  "messageQueue (finishStreaming s) = messageQueue s"
  "messageQueue (markAllToolsDone th h s) = messageQueue s"
  "messageQueue (showToolComplete th h i e s) = messageQueue s"
  by (simp_all add: requestRender_def addChild_def addMessage_def startLoading_def stopLoading_def
      startStreaming_def finishStreaming_def markAllToolsDone_def showToolComplete_def Let_def
      split: option.splits)

lemma messageQueue_appendStreamingText [simp]:
  "messageQueue (appendStreamingText t s) = messageQueue s"
  by (simp add: appendStreamingText_def Let_def split: option.splits)

lemma messageQueue_handleStreamEvent [simp]:
  "messageQueue (handleStreamEvent th h ev s) = messageQueue s"
  by (simp add: handleStreamEvent_def Let_def showToolStart_fields split: option.splits)

lemma messageQueue_handleMessage:
  "messageQueue (handleMessage th h m s) = messageQueue s
   \<or> (\<exists>sid. messageQueue (handleMessage th h m s) = setSessionId sid (messageQueue s))"
  by (cases m) (auto simp: handleMessage_def Let_def)

lemma drained_refl: "mq_done q \<Longrightarrow> drained q q"
  by (simp add: drained_def)

lemma drained_setSessionId: "drained q q' \<Longrightarrow> drained q (setSessionId sid q')"
  by (simp add: drained_def setSessionId_def)

lemma drained_push: "drained q q' \<Longrightarrow> drained q (push c q')"
  by (simp add: drained_def push_def)

lemma drained_close: "drained q q' \<Longrightarrow> drained q (close q')"
  by (simp add: drained_def close_def)

lemma drained_next:
  assumes "drained q q'"
  shows "drained q (next_mq q')"
proof (cases "queue q'")
  case Nil
  with assms show ?thesis
    by (simp add: drained_def next_mq_def Let_def)
next
  case (Cons m ms)
  with assms have "suffix ms (queue q)"
    by (auto simp: drained_def dest: suffix_ConsD)
  with assms Cons show ?thesis
    by (simp add: drained_def next_mq_def Let_def)
qed

lemma drained_handleSubmit:
  assumes "drained q (messageQueue s)"
  shows "drained q (messageQueue (handleSubmit th t s))"
  using assms drained_push [OF assms] drained_close [OF assms]
  by (simp add: handleSubmit_def Let_def stop_def)

lemma drained_session_step:
  assumes "drained q (messageQueue s)"
  shows "drained q (messageQueue (session_step th h s st))"
proof (cases st)
  case (Inbound m)
  with messageQueue_handleMessage [of th h m s] assms show ?thesis
    by (auto simp: drained_setSessionId)
next
  case (Submit t)
  with assms show ?thesis by (simp add: drained_handleSubmit)
next
  case Pull
  with assms show ?thesis by (simp add: drained_next)
qed

lemma drained_steps:
  "drained q (messageQueue s) \<Longrightarrow> drained q (messageQueue (foldl (session_step th h) s steps))"
  by (induction steps rule: rev_induct) (simp_all add: drained_session_step)

lemma trim_exit: "trim ''/exit'' = ''/exit''"
  by code_simp

text \<open>
  Claim C9, as the claim states it, fails: the success field of the result is decided by
  the way the inbound stream ends, and \<open>/exit\<close> aborts that stream; when the stream throws
  after the abort, the result has success false.
\<close>

theorem C9_exit_with_failing_stream:
  "let (r, s) = start plain_theme int_host [Submit ''/exit''] (Threw ''aborted'')
   in success r = False \<and> queue (messageQueue s) = [] \<and> settled (messageQueue s) = []"
  by code_simp

text \<open>
  Claim C9, amended. Submitting the local command \<open>/exit\<close> never causes any message to
  enter the outbound queue: it closes the queue (waiting consumers receive the
  end-of-stream sentinel), signals the abort and stops the terminal UI, and from then on
  the queue stays closed and only loses messages. The session's result has success true
  exactly when the inbound stream then ends without throwing.
\<close>

theorem C9_exit_command:
  "handleSubmit th ''/exit'' s = stop s
   \<and> (trim t = ''/exit'' \<longrightarrow> handleSubmit th t s = stop s)
   \<and> queue (messageQueue (stop s)) = queue (messageQueue s)
   \<and> settled (messageQueue (stop s)) =
       settled (messageQueue s) @ map (\<lambda>r. (r, IterDone)) (resolvers (messageQueue s))
   \<and> mq_done (messageQueue (stop s)) \<and> aborted (stop s) \<and> \<not> tui_running (stop s)
   \<and> drained (messageQueue s) (messageQueue (foldl (session_step th h) (stop s) steps))
   \<and> success (fst (start th h steps' e)) = (e = Completed)"
proof -
  have a: "handleSubmit th ''/exit'' s = stop s"
    by (simp add: handleSubmit_def trim_exit)
  have b: "trim t = ''/exit'' \<longrightarrow> handleSubmit th t s = stop s"
    by (simp add: handleSubmit_def)
  have "drained (messageQueue s) (messageQueue (stop s))"
    by (simp add: drained_def stop_def close_def)
  then have d: "drained (messageQueue s) (messageQueue (foldl (session_step th h) (stop s) steps))"
    by (rule drained_steps)
  have r: "success (fst (start th h steps' e)) = (e = Completed)"
    by (cases e) (simp_all add: start_def Let_def)
  have q: "queue (messageQueue (stop s)) = queue (messageQueue s)"
    "settled (messageQueue (stop s)) =
       settled (messageQueue s) @ map (\<lambda>r. (r, IterDone)) (resolvers (messageQueue s))"
    "mq_done (messageQueue (stop s))" "aborted (stop s)" "\<not> tui_running (stop s)"
    by (simp_all add: stop_def close_def)
  from a b q d r show ?thesis
    by (intro conjI)
qed

theorem C9_exit_command_witness:
  "trim ''  /exit  '' = ''/exit''
   \<and> (let s = session_state plain_theme int_host [Submit ''hello'', Pull, Pull];
           s' = handleSubmit plain_theme ''  /exit  '' s
       in queue (messageQueue s') = []
          \<and> settled (messageQueue s') =
              [(0, IterValue \<lparr>session_id = [], content = ''hello''\<rparr>), (1, IterDone)]
          \<and> mq_done (messageQueue s') \<and> aborted s'
          \<and> success (fst (start plain_theme int_host [Submit ''hello'', Pull, Pull, Submit ''  /exit  '']
                 Completed)))"
proof -
  have t: "trim ''  /exit  '' = ''/exit''"
    by code_simp
  have c: "let s = session_state plain_theme int_host [Submit ''hello'', Pull, Pull]
       in queue (messageQueue (stop s)) = []
          \<and> settled (messageQueue (stop s)) =
              [(0, IterValue \<lparr>session_id = [], content = ''hello''\<rparr>), (1, IterDone)]
          \<and> mq_done (messageQueue (stop s)) \<and> aborted (stop s)"
    by code_simp
  from t c
    C9_exit_command [where th = plain_theme and t = "''  /exit  ''"
      and s = "session_state plain_theme int_host [Submit ''hello'', Pull, Pull]"
      and h = int_host and e = Completed
      and steps' = "[Submit ''hello'', Pull, Pull, Submit ''  /exit  '']"]
  show ?thesis
    by (simp add: Let_def)
qed

end
